theory Spec2Isabelle
  imports Main "HOL-Library.Word" "HOL-Library.Monad_Syntax"
begin

unbundle bit_operations_syntax

section \<open>The FlexSPI W25Q128JV NOR flash driver\<close>

text \<open>
  A shallow embedding of \<^verbatim>\<open>drivers/flash/flash_mcux_flexspi_w25q128jv.c\<close>.

  The driver runs on a 32-bit target: \<^verbatim>\<open>off_t\<close>, \<^verbatim>\<open>size_t\<close>, \<^verbatim>\<open>int\<close> and
  \<^verbatim>\<open>uint32_t\<close> values are 32-bit words, arithmetic wraps modulo \<open>2 ^ 32\<close>. An offset
  mixed with one of the unsigned \<^verbatim>\<open>SPI_NOR_*\<close> sizes is converted to unsigned first, so
  \<^verbatim>\<open>%\<close>, \<^verbatim>\<open>/\<close> and the comparisons of the driver are the unsigned ones of words; an
  offset reaches the controller as the unsigned \<^verbatim>\<open>deviceAddress\<close> of a transfer. The loop
  counters \<^verbatim>\<open>int i\<close> are compared with unsigned counts, as unsigned values. Where C leaves
  the result open (a division by a size of zero, a signed counter beyond \<open>2 ^ 31 - 1\<close>),
  the properties below assume sizes that keep the driver away from it. Return codes are
  integers (\<open>0\<close> is success, a negative errno value an error).

  The bus controller, the interrupt lock and the data cache are collaborators of the
  driver. They are a parameter of every function: a record of functions over an
  abstract controller state. Every call of the driver that has an effect on a
  collaborator is appended, with the collaborator's answer, to a trace.
\<close>

type_synonym u8 = "8 word"
type_synonym u32 = "32 word"

subsection \<open>Data\<close>

text \<open>The indices of the command sequences in the look-up table (the anonymous enum).\<close>

datatype lut_index =
    READ_FAST_QUAD_IO
  | READ_STATUS_REG1
  | READ_FAST_QUAD_OUTPUT
  | WRITE_ENABLE
  | READ_ID
  | ERASE_SECTOR
  | WRITE_STATUS_REG
  | READ_STATUS_REG2
  | ERASE_BLOCK
  | PAGE_PROGRAM_INPUT
  | PAGE_PROGRAM_QUAD_INPUT
  | ERASE_CHIP

datatype flexspi_command_type = kFLEXSPI_Command | kFLEXSPI_Read | kFLEXSPI_Write

text \<open>
  What the \<^verbatim>\<open>data\<close> pointer of a transfer points to, as far as \<^verbatim>\<open>dataSize\<close> reaches:
  nothing, an array of 32-bit words (the status variables), or bytes (a page chunk).
\<close>

datatype data_ptr = NULL | Words "u32 list" | Bytes "u8 list"

record flexspi_transfer =
  deviceAddress :: u32
  port :: u32
  cmdType :: flexspi_command_type
  SeqNumber :: nat
  seqIndex :: lut_index
  data :: data_ptr
  dataSize :: u32

text \<open>Of \<^verbatim>\<open>flexspi_device_config_t\<close> the driver's functions read \<^verbatim>\<open>flashSize\<close> only.\<close>

record flexspi_device_config =
  flashSize :: u32

record flash_pages_layout =
  pages_count :: u32
  pages_size :: u32

record flash_parameters =
  write_block_size :: u32
  erase_value :: u8

text \<open>
  \<^verbatim>\<open>struct flash_flexspi_nor_data\<close>. Its \<^verbatim>\<open>controller\<close> field is the collaborator record
  below, passed beside it.
\<close>

record flash_flexspi_nor_data =
  config :: flexspi_device_config
  dev_port :: u32
  layout :: flash_pages_layout
  flash_params :: flash_parameters

text \<open>
  The three sizes that the driver takes from \<^verbatim>\<open>spi_nor.h\<close> (unsigned constants) and the
  two build options its code depends on. They are parameters of the model.
\<close>

record build_config =
  SPI_NOR_PAGE_SIZE :: u32
  SPI_NOR_SECTOR_SIZE :: u32
  SPI_NOR_BLOCK_SIZE :: u32
  CONFIG_HAS_MCUX_CACHE :: bool
  CONFIG_FLASH_MCUX_FLEXSPI_NOR_WRITE_BUFFER :: bool

definition EIO :: int where "EIO = 5"
definition ENODEV :: int where "ENODEV = 19"
definition EINVAL :: int where "EINVAL = 22"

definition KB :: "u32 \<Rightarrow> u32" where
  "KB x = push_bit 10 x"

subsection \<open>Collaborators and the trace of their calls\<close>

text \<open>
  A transfer answers with its return code and, for a read into a status variable, the
  value of that variable afterwards; the buffers of the other transfers are read by the
  controller only. The queries (\<open>co_is_running_xip\<close>, \<open>co_get_ahb_address\<close>,
  \<open>co_device_is_ready\<close>) report on the controller state and leave it as it is, as their
  contracts say (the mapped address of an offset is a pointer, execute-in-place is a
  report); \<open>co_mem\<close> is the byte the processor reads at an address.
\<close>

record 's collaborators =
  co_transfer :: "flexspi_transfer \<Rightarrow> 's \<Rightarrow> int \<times> u32 \<times> 's"
  co_reset :: "'s \<Rightarrow> 's"
  co_is_running_xip :: "'s \<Rightarrow> bool"
  co_get_ahb_address :: "'s \<Rightarrow> u32 \<Rightarrow> u32 \<Rightarrow> u32"
  co_mem :: "'s \<Rightarrow> u32 \<Rightarrow> u8"
  co_wait_bus_idle :: "'s \<Rightarrow> 's"
  co_set_device_config :: "flexspi_device_config \<Rightarrow> u32 \<Rightarrow> 's \<Rightarrow> int \<times> 's"
  co_device_is_ready :: "'s \<Rightarrow> bool"
  co_irq_lock :: "'s \<Rightarrow> u32 \<times> 's"
  co_irq_unlock :: "u32 \<Rightarrow> 's \<Rightarrow> 's"
  co_dcache_invalidate :: "u32 \<Rightarrow> u32 \<Rightarrow> 's \<Rightarrow> 's"

datatype event =
    Transfer flexspi_transfer int u32
  | Reset
  | Wait_bus_idle
  | Set_device_config flexspi_device_config u32 int
  | Irq_lock u32
  | Irq_unlock u32
  | Dcache_invalidate u32 u32

text \<open>
  The state a driver function runs in: the controller's state, the trace so far (oldest
  call first) and the static staging buffer \<^verbatim>\<open>nor_write_buf\<close>.
\<close>

record 's world =
  ctrl :: 's
  trace :: "event list"
  nor_write_buf :: "u8 list"

definition log :: "event \<Rightarrow> 's world \<Rightarrow> 's world" where
  "log e w = w\<lparr>trace := trace w @ [e]\<rparr>"

definition memc_flexspi_transfer ::
  "'s collaborators \<Rightarrow> flexspi_transfer \<Rightarrow> 's world \<Rightarrow> int \<times> u32 \<times> 's world" where
  "memc_flexspi_transfer c t w =
     (case co_transfer c t (ctrl w) of
        (ret, rx, s') \<Rightarrow> (ret, rx, log (Transfer t ret rx) (w\<lparr>ctrl := s'\<rparr>)))"

definition memc_flexspi_reset :: "'s collaborators \<Rightarrow> 's world \<Rightarrow> 's world" where
  "memc_flexspi_reset c w = log Reset (w\<lparr>ctrl := co_reset c (ctrl w)\<rparr>)"

definition memc_flexspi_wait_bus_idle :: "'s collaborators \<Rightarrow> 's world \<Rightarrow> 's world" where
  "memc_flexspi_wait_bus_idle c w = log Wait_bus_idle (w\<lparr>ctrl := co_wait_bus_idle c (ctrl w)\<rparr>)"

definition memc_flexspi_set_device_config ::
  "'s collaborators \<Rightarrow> flexspi_device_config \<Rightarrow> u32 \<Rightarrow> 's world \<Rightarrow> int \<times> 's world" where
  "memc_flexspi_set_device_config c cfg p w =
     (case co_set_device_config c cfg p (ctrl w) of
        (ret, s') \<Rightarrow> (ret, log (Set_device_config cfg p ret) (w\<lparr>ctrl := s'\<rparr>)))"

definition memc_flexspi_is_running_xip :: "'s collaborators \<Rightarrow> 's world \<Rightarrow> bool" where
  "memc_flexspi_is_running_xip c w = co_is_running_xip c (ctrl w)"

definition memc_flexspi_get_ahb_address ::
  "'s collaborators \<Rightarrow> 's world \<Rightarrow> u32 \<Rightarrow> u32 \<Rightarrow> u32" where
  "memc_flexspi_get_ahb_address c w p offset = co_get_ahb_address c (ctrl w) p offset"

definition irq_lock :: "'s collaborators \<Rightarrow> 's world \<Rightarrow> u32 \<times> 's world" where
  "irq_lock c w =
     (case co_irq_lock c (ctrl w) of (key, s') \<Rightarrow> (key, log (Irq_lock key) (w\<lparr>ctrl := s'\<rparr>)))"

definition irq_unlock :: "'s collaborators \<Rightarrow> u32 \<Rightarrow> 's world \<Rightarrow> 's world" where
  "irq_unlock c key w = log (Irq_unlock key) (w\<lparr>ctrl := co_irq_unlock c key (ctrl w)\<rparr>)"

definition DCACHE_InvalidateByRange ::
  "'s collaborators \<Rightarrow> u32 \<Rightarrow> u32 \<Rightarrow> 's world \<Rightarrow> 's world" where
  "DCACHE_InvalidateByRange c a n w =
     log (Dcache_invalidate a n) (w\<lparr>ctrl := co_dcache_invalidate c a n (ctrl w)\<rparr>)"

subsection \<open>The primitive transfers\<close>

definition flash_flexspi_nor_get_vendor_id ::
  "'s collaborators \<Rightarrow> flash_flexspi_nor_data \<Rightarrow> 's world \<Rightarrow> int \<times> u8 \<times> 's world" where
  "flash_flexspi_nor_get_vendor_id c d w =
     (case memc_flexspi_transfer c
         \<lparr>deviceAddress = 0, port = dev_port d, cmdType = kFLEXSPI_Read, SeqNumber = 1,
          seqIndex = READ_ID, data = Words [0], dataSize = 1\<rparr> w of
        (ret, buffer, w') \<Rightarrow> (ret, ucast buffer, w'))"

definition flash_flexspi_nor_read_status ::
  "'s collaborators \<Rightarrow> flash_flexspi_nor_data \<Rightarrow> u32 \<Rightarrow> 's world \<Rightarrow> int \<times> u32 \<times> 's world" where
  "flash_flexspi_nor_read_status c d status w =
     memc_flexspi_transfer c
       \<lparr>deviceAddress = 0, port = dev_port d, cmdType = kFLEXSPI_Read, SeqNumber = 1,
        seqIndex = READ_STATUS_REG1, data = Words [status], dataSize = 1\<rparr> w"

definition flash_flexspi_nor_read_status2 ::
  "'s collaborators \<Rightarrow> flash_flexspi_nor_data \<Rightarrow> u32 \<Rightarrow> 's world \<Rightarrow> int \<times> u32 \<times> 's world" where
  "flash_flexspi_nor_read_status2 c d status w =
     memc_flexspi_transfer c
       \<lparr>deviceAddress = 0, port = dev_port d, cmdType = kFLEXSPI_Read, SeqNumber = 1,
        seqIndex = READ_STATUS_REG2, data = Words [status], dataSize = 1\<rparr> w"

definition flash_flexspi_nor_write_status ::
  "'s collaborators \<Rightarrow> flash_flexspi_nor_data \<Rightarrow> u32 list \<Rightarrow> u8 \<Rightarrow> 's world \<Rightarrow> int \<times> 's world" where
  "flash_flexspi_nor_write_status c d status size' w =
     (if size' > 2 then (- EINVAL, w)
      else case memc_flexspi_transfer c
         \<lparr>deviceAddress = 0, port = dev_port d, cmdType = kFLEXSPI_Write, SeqNumber = 1,
          seqIndex = WRITE_STATUS_REG, data = Words status, dataSize = ucast size'\<rparr> w of
        (ret, _, w') \<Rightarrow> (ret, w'))"

definition flash_flexspi_nor_write_enable ::
  "'s collaborators \<Rightarrow> flash_flexspi_nor_data \<Rightarrow> 's world \<Rightarrow> int \<times> 's world" where
  "flash_flexspi_nor_write_enable c d w =
     (case memc_flexspi_transfer c
         \<lparr>deviceAddress = 0, port = dev_port d, cmdType = kFLEXSPI_Command, SeqNumber = 1,
          seqIndex = WRITE_ENABLE, data = NULL, dataSize = 0\<rparr> w of
        (ret, _, w') \<Rightarrow> (ret, w'))"

definition flash_flexspi_nor_erase_sector ::
  "'s collaborators \<Rightarrow> flash_flexspi_nor_data \<Rightarrow> u32 \<Rightarrow> 's world \<Rightarrow> int \<times> 's world" where
  "flash_flexspi_nor_erase_sector c d offset w =
     (case memc_flexspi_transfer c
         \<lparr>deviceAddress = offset, port = dev_port d, cmdType = kFLEXSPI_Command, SeqNumber = 1,
          seqIndex = ERASE_SECTOR, data = NULL, dataSize = 0\<rparr> w of
        (ret, _, w') \<Rightarrow> (ret, w'))"

definition flash_flexspi_nor_erase_block ::
  "'s collaborators \<Rightarrow> flash_flexspi_nor_data \<Rightarrow> u32 \<Rightarrow> 's world \<Rightarrow> int \<times> 's world" where
  "flash_flexspi_nor_erase_block c d offset w =
     (case memc_flexspi_transfer c
         \<lparr>deviceAddress = offset, port = dev_port d, cmdType = kFLEXSPI_Command, SeqNumber = 1,
          seqIndex = ERASE_BLOCK, data = NULL, dataSize = 0\<rparr> w of
        (ret, _, w') \<Rightarrow> (ret, w'))"

definition flash_flexspi_nor_erase_chip ::
  "'s collaborators \<Rightarrow> flash_flexspi_nor_data \<Rightarrow> 's world \<Rightarrow> int \<times> 's world" where
  "flash_flexspi_nor_erase_chip c d w =
     (case memc_flexspi_transfer c
         \<lparr>deviceAddress = 0, port = dev_port d, cmdType = kFLEXSPI_Command, SeqNumber = 1,
          seqIndex = ERASE_CHIP, data = NULL, dataSize = 0\<rparr> w of
        (ret, _, w') \<Rightarrow> (ret, w'))"

definition flash_flexspi_nor_page_program ::
  "'s collaborators \<Rightarrow> flash_flexspi_nor_data \<Rightarrow> u32 \<Rightarrow> u8 list \<Rightarrow> u32 \<Rightarrow> 's world
     \<Rightarrow> int \<times> 's world" where
  "flash_flexspi_nor_page_program c d offset buffer len w =
     (case memc_flexspi_transfer c
         \<lparr>deviceAddress = offset, port = dev_port d, cmdType = kFLEXSPI_Write, SeqNumber = 1,
          seqIndex = PAGE_PROGRAM_QUAD_INPUT, data = Bytes (take (unat len) buffer),
          dataSize = len\<rparr> w of
        (ret, _, w') \<Rightarrow> (ret, w'))"

subsection \<open>Waiting for the device\<close>

text \<open>
  The \<^verbatim>\<open>do ... while (status & BIT(0))\<close> loop has no bound: it is a partial function and
  \<open>None\<close> is the run that polls forever. \<^verbatim>\<open>status\<close> lives across the iterations.
\<close>

partial_function (option) wait_bus_busy_loop ::
  "'s collaborators \<Rightarrow> flash_flexspi_nor_data \<Rightarrow> u32 \<Rightarrow> 's world \<Rightarrow> (int \<times> 's world) option" where
  "wait_bus_busy_loop c d status w =
     (case flash_flexspi_nor_read_status c d status w of
        (ret, status', w') \<Rightarrow>
          if ret \<noteq> 0 then Some (ret, w')
          else if status' AND 1 \<noteq> 0 then wait_bus_busy_loop c d status' w'
          else Some (0, w'))"

declare wait_bus_busy_loop.simps [code]

definition flash_flexspi_nor_wait_bus_busy ::
  "'s collaborators \<Rightarrow> flash_flexspi_nor_data \<Rightarrow> 's world \<Rightarrow> (int \<times> 's world) option" where
  "flash_flexspi_nor_wait_bus_busy c d w = wait_bus_busy_loop c d 0 w"

subsection \<open>Quad mode\<close>

definition flash_flexspi_nor_enable_quad_mode ::
  "'s collaborators \<Rightarrow> flash_flexspi_nor_data \<Rightarrow> 's world \<Rightarrow> (int \<times> 's world) option" where
  "flash_flexspi_nor_enable_quad_mode c d w =
     (case flash_flexspi_nor_write_enable c d w of (_, w1) \<Rightarrow>
      case flash_flexspi_nor_write_status c d [0x00, 0x02] 2 w1 of (ret, w2) \<Rightarrow>
        if ret \<noteq> 0 then Some (- EIO, w2)
        else do {
          (_, w3) \<leftarrow> flash_flexspi_nor_wait_bus_busy c d w2;
          case flash_flexspi_nor_read_status2 c d 0 w3 of (_, quad_enabled, w4) \<Rightarrow>
            if 0x02 \<noteq> quad_enabled then Some (- EIO, w4)
            else do {
              (_, w5) \<leftarrow> flash_flexspi_nor_wait_bus_busy c d w4;
              Some (0, memc_flexspi_reset c w5)
            }
        })"

subsection \<open>Read\<close>

text \<open>\<^verbatim>\<open>memcpy(buffer, src, len)\<close>: the value is the return code and the buffer's new content.\<close>

definition flash_flexspi_nor_read ::
  "'s collaborators \<Rightarrow> flash_flexspi_nor_data \<Rightarrow> u32 \<Rightarrow> u32 \<Rightarrow> 's world
     \<Rightarrow> int \<times> u8 list \<times> 's world" where
  "flash_flexspi_nor_read c d offset len w =
     (let src = memc_flexspi_get_ahb_address c w (dev_port d) offset
      in (0, map (\<lambda>j. co_mem c (ctrl w) (src + of_nat j)) [0 ..< unat len], w))"

subsection \<open>Parameters and page layout\<close>

definition flash_flexspi_nor_get_parameters :: "flash_flexspi_nor_data \<Rightarrow> flash_parameters" where
  "flash_flexspi_nor_get_parameters d = flash_params d"

text \<open>The layout and \<^verbatim>\<open>*layout_size\<close>.\<close>

definition flash_flexspi_nor_pages_layout ::
  "flash_flexspi_nor_data \<Rightarrow> flash_pages_layout \<times> nat" where
  "flash_flexspi_nor_pages_layout d = (layout d, 1)"

subsection \<open>Write\<close>

text \<open>
  The \<^verbatim>\<open>while (len)\<close> loop. \<^verbatim>\<open>src\<close> is the rest of the caller's buffer, \<^verbatim>\<open>src += i\<close>
  drops its first \<open>i\<close> bytes. The return values of the four calls are not looked at.
\<close>

partial_function (option) write_loop ::
  "'s collaborators \<Rightarrow> build_config \<Rightarrow> flash_flexspi_nor_data \<Rightarrow> u32 \<Rightarrow> u8 list \<Rightarrow> u32
     \<Rightarrow> 's world \<Rightarrow> 's world option" where
  "write_loop c k d offset src len w =
     (if len = 0 then Some w
      else
        let i = min (SPI_NOR_PAGE_SIZE k - (offset mod SPI_NOR_PAGE_SIZE k)) len;
            w1 = (if CONFIG_FLASH_MCUX_FLEXSPI_NOR_WRITE_BUFFER k
                  then w\<lparr>nor_write_buf := take (unat i) src @ drop (unat i) (nor_write_buf w)\<rparr>
                  else w);
            w2 = snd (flash_flexspi_nor_write_enable c d w1);
            w3 = snd (flash_flexspi_nor_page_program c d offset
                        (if CONFIG_FLASH_MCUX_FLEXSPI_NOR_WRITE_BUFFER k
                         then nor_write_buf w2 else src) i w2)
        in do {
          (_, w4) \<leftarrow> flash_flexspi_nor_wait_bus_busy c d w3;
          write_loop c k d (offset + i) (drop (unat i) src) (len - i) (memc_flexspi_reset c w4)
        })"

declare write_loop.simps [code]

definition flash_flexspi_nor_write ::
  "'s collaborators \<Rightarrow> build_config \<Rightarrow> flash_flexspi_nor_data \<Rightarrow> u32 \<Rightarrow> u8 list \<Rightarrow> u32
     \<Rightarrow> 's world \<Rightarrow> (int \<times> 's world) option" where
  "flash_flexspi_nor_write c k d offset buffer len w =
     (let size' = len;
          dst = memc_flexspi_get_ahb_address c w (dev_port d) offset;
          (key, w1) = (if memc_flexspi_is_running_xip c w then irq_lock c w else (0, w))
      in do {
        w2 \<leftarrow> write_loop c k d offset buffer len w1;
        let w3 = (if memc_flexspi_is_running_xip c w2 then irq_unlock c key w2 else w2);
            w4 = (if CONFIG_HAS_MCUX_CACHE k then DCACHE_InvalidateByRange c dst size' w3 else w3)
        in Some (0, w4)
      })"

subsection \<open>Erase\<close>

text \<open>The two \<^verbatim>\<open>for (i = 0; i < num; i++)\<close> loops; \<open>i\<close> is compared as unsigned.\<close>

partial_function (option) erase_block_loop ::
  "'s collaborators \<Rightarrow> build_config \<Rightarrow> flash_flexspi_nor_data \<Rightarrow> u32 \<Rightarrow> u32 \<Rightarrow> u32
     \<Rightarrow> 's world \<Rightarrow> 's world option" where
  "erase_block_loop c k d i num_blocks offset w =
     (if i < num_blocks then
        let w1 = snd (flash_flexspi_nor_write_enable c d w);
            w2 = snd (flash_flexspi_nor_erase_block c d offset w1)
        in do {
          (_, w3) \<leftarrow> flash_flexspi_nor_wait_bus_busy c d w2;
          erase_block_loop c k d (i + 1) num_blocks (offset + SPI_NOR_BLOCK_SIZE k)
            (memc_flexspi_reset c w3)
        }
      else Some w)"

partial_function (option) erase_sector_loop ::
  "'s collaborators \<Rightarrow> build_config \<Rightarrow> flash_flexspi_nor_data \<Rightarrow> u32 \<Rightarrow> u32 \<Rightarrow> u32
     \<Rightarrow> 's world \<Rightarrow> 's world option" where
  "erase_sector_loop c k d i num_sectors offset w =
     (if i < num_sectors then
        let w1 = snd (flash_flexspi_nor_write_enable c d w);
            w2 = snd (flash_flexspi_nor_erase_sector c d offset w1)
        in do {
          (_, w3) \<leftarrow> flash_flexspi_nor_wait_bus_busy c d w2;
          erase_sector_loop c k d (i + 1) num_sectors (offset + SPI_NOR_SECTOR_SIZE k)
            (memc_flexspi_reset c w3)
        }
      else Some w)"

declare erase_block_loop.simps [code] erase_sector_loop.simps [code]

definition flash_flexspi_nor_erase ::
  "'s collaborators \<Rightarrow> build_config \<Rightarrow> flash_flexspi_nor_data \<Rightarrow> u32 \<Rightarrow> u32
     \<Rightarrow> 's world \<Rightarrow> (int \<times> 's world) option" where
  "flash_flexspi_nor_erase c k d offset size' w =
     (let num_sectors = size' div SPI_NOR_SECTOR_SIZE k;
          num_blocks = size' div SPI_NOR_BLOCK_SIZE k;
          dst = memc_flexspi_get_ahb_address c w (dev_port d) offset
      in if offset mod SPI_NOR_SECTOR_SIZE k \<noteq> 0 then Some (- EINVAL, w)
         else if size' mod SPI_NOR_SECTOR_SIZE k \<noteq> 0 then Some (- EINVAL, w)
         else
           let (key, w1) = (if memc_flexspi_is_running_xip c w then irq_lock c w else (0, w))
           in do {
             w2 \<leftarrow>
               (if offset = 0 \<and> size' = flashSize (config d) * KB 1 then
                  let w1a = snd (flash_flexspi_nor_write_enable c d w1);
                      w1b = snd (flash_flexspi_nor_erase_chip c d w1a)
                  in do {
                    (_, w1c) \<leftarrow> flash_flexspi_nor_wait_bus_busy c d w1b;
                    Some (memc_flexspi_reset c w1c)
                  }
                else if 0 = offset mod SPI_NOR_BLOCK_SIZE k \<and> 0 = size' mod SPI_NOR_BLOCK_SIZE k
                then erase_block_loop c k d 0 num_blocks offset w1
                else erase_sector_loop c k d 0 num_sectors offset w1);
             let w3 = (if memc_flexspi_is_running_xip c w2 then irq_unlock c key w2 else w2);
                 w4 = (if CONFIG_HAS_MCUX_CACHE k then DCACHE_InvalidateByRange c dst size' w3
                       else w3)
             in Some (0, w4)
           })"

subsection \<open>Initialisation\<close>

definition flash_flexspi_nor_init ::
  "'s collaborators \<Rightarrow> flash_flexspi_nor_data \<Rightarrow> 's world \<Rightarrow> (int \<times> 's world) option" where
  "flash_flexspi_nor_init c d w =
     (if \<not> co_device_is_ready c (ctrl w) then Some (- ENODEV, w)
      else
        let w1 = (if memc_flexspi_is_running_xip c w then memc_flexspi_wait_bus_idle c w else w)
        in case memc_flexspi_set_device_config c (config d) (dev_port d) w1 of (ret, w2) \<Rightarrow>
          if ret \<noteq> 0 then Some (- EINVAL, w2)
          else do {
            (_, w3) \<leftarrow> flash_flexspi_nor_wait_bus_busy c d w2;
            case flash_flexspi_nor_get_vendor_id c d (memc_flexspi_reset c w3) of
              (ret, vendor_id, w4) \<Rightarrow>
                if ret \<noteq> 0 then Some (- EIO, w4)
                else do {
                  (ret, w5) \<leftarrow> flash_flexspi_nor_enable_quad_mode c d w4;
                  if ret \<noteq> 0 then Some (- EIO, w5)
                  else do {
                    (_, w6) \<leftarrow> flash_flexspi_nor_wait_bus_busy c d w5;
                    Some (0, memc_flexspi_reset c w6)
                  }
                }
          })"

subsection \<open>Reading traces\<close>

text \<open>The calls a function added to the trace, given the state before and after.\<close>

definition emitted :: "'s world \<Rightarrow> 's world \<Rightarrow> event list" where
  "emitted w w' = drop (length (trace w)) (trace w')"

text \<open>The calls that go to the bus controller: transfers and controller resets.\<close>

fun is_bus :: "event \<Rightarrow> bool" where
  "is_bus (Transfer t r v) = True"
| "is_bus Reset = True"
| "is_bus e = False"

definition bus :: "event list \<Rightarrow> event list" where
  "bus tr = filter is_bus tr"

fun is_poll :: "event \<Rightarrow> bool" where
  "is_poll (Transfer t r v) = (seqIndex t = READ_STATUS_REG1)"
| "is_poll e = False"

text \<open>
  A read of status register 1 that succeeds with bit 0 set, after which a wait goes on,
  and one that fails or finds bit 0 clear, with which a wait ends.
\<close>

fun busy_poll :: "event \<Rightarrow> bool" where
  "busy_poll (Transfer t r v) = (seqIndex t = READ_STATUS_REG1 \<and> r = 0 \<and> v AND 1 \<noteq> 0)"
| "busy_poll e = False"

fun last_poll :: "event \<Rightarrow> bool" where
  "last_poll (Transfer t r v) =
     (seqIndex t = READ_STATUS_REG1 \<and> \<not> (r = 0 \<and> v AND 1 \<noteq> 0))"
| "last_poll e = False"

text \<open>
  The trace of one whole wait until idle: reads of status register 1 that find the device
  busy, as many as there are, and then the one read that ends the wait.
\<close>

fun wait_polls :: "event list \<Rightarrow> bool" where
  "wait_polls [] = False"
| "wait_polls [e] = last_poll e"
| "wait_polls (e # es) = (busy_poll e \<and> wait_polls es)"

fun is_probe :: "event \<Rightarrow> bool" where
  "is_probe (Transfer t r v) = (seqIndex t = READ_STATUS_REG2)"
| "is_probe e = False"

text \<open>The command sequences that change the device: erase, program, write status.\<close>

fun mutating :: "lut_index \<Rightarrow> bool" where
  "mutating ERASE_SECTOR = True"
| "mutating ERASE_BLOCK = True"
| "mutating ERASE_CHIP = True"
| "mutating PAGE_PROGRAM_INPUT = True"
| "mutating PAGE_PROGRAM_QUAD_INPUT = True"
| "mutating WRITE_STATUS_REG = True"
| "mutating i = False"

fun is_mutation :: "event \<Rightarrow> bool" where
  "is_mutation (Transfer t r v) = mutating (seqIndex t)"
| "is_mutation e = False"

text \<open>
  Where the bus is between two calls: \<open>Ready\<close> for any command, \<open>Enabled\<close> after a write
  enable, \<open>Waiting\<close> while a mutating transfer has not been seen to end (no read of
  status register 1 has failed or found bit 0 clear since), \<open>Idle\<close> when the wait has
  ended and the controller reset is due.
\<close>

datatype phase = Ready | Enabled | Waiting | Idle

text \<open>
  \<open>settled Ready tr\<close>: in the bus trace \<open>tr\<close> every mutating transfer is followed by a whole
  wait until idle (reads of status register 1 for as long as they succeed with bit 0 set,
  up to the first that fails or finds bit 0 clear) and then by a controller reset, with
  nothing between.
\<close>

fun settled :: "phase \<Rightarrow> event list \<Rightarrow> bool" where
  "settled ph [] = (ph = Ready)"
| "settled Waiting (e # es) =
     (if busy_poll e then settled Waiting es else last_poll e \<and> settled Idle es)"
| "settled Idle (e # es) = (e = Reset \<and> settled Ready es)"
| "settled ph (e # es) = (if is_mutation e then settled Waiting es else settled Ready es)"

text \<open>
  \<open>cycles Ready tr\<close> reads the bus trace \<open>tr\<close> as a sequence of cycles, each one a write
  enable, one mutating transfer, a whole wait until idle and a controller reset. The
  value is the list of the mutating transfers, or \<open>None\<close> when \<open>tr\<close> is not such a
  sequence.
\<close>

fun cycles :: "phase \<Rightarrow> event list \<Rightarrow> flexspi_transfer list option" where
  "cycles Ready [] = Some []"
| "cycles ph [] = None"
| "cycles Ready (Transfer t r v # es) =
     (if seqIndex t = WRITE_ENABLE then cycles Enabled es else None)"
| "cycles Enabled (Transfer t r v # es) =
     (if mutating (seqIndex t) then map_option (Cons t) (cycles Waiting es) else None)"
| "cycles Waiting (e # es) =
     (if busy_poll e then cycles Waiting es
      else if last_poll e then cycles Idle es else None)"
| "cycles Idle (e # es) = (if e = Reset then cycles Ready es else None)"
| "cycles ph (e # es) = None"

text \<open>
  \<open>settled_reads\<close> is \<open>settled\<close> with one more thing allowed between the wait and the
  reset: a read of status register 2, after which another whole wait until idle is due.
\<close>

fun settled_reads :: "phase \<Rightarrow> event list \<Rightarrow> bool" where
  "settled_reads ph [] = (ph = Ready)"
| "settled_reads Waiting (e # es) =
     (if busy_poll e then settled_reads Waiting es
      else last_poll e \<and> settled_reads Idle es)"
| "settled_reads Idle (e # es) =
     (if e = Reset then settled_reads Ready es
      else is_probe e \<and> settled_reads Waiting es)"
| "settled_reads ph (e # es) =
     (if is_mutation e then settled_reads Waiting es else settled_reads Ready es)"

text \<open>A read of status register 2 that yields another value than \<open>0x02\<close>.\<close>

fun failed_probe :: "event \<Rightarrow> bool" where
  "failed_probe (Transfer t r v) = (seqIndex t = READ_STATUS_REG2 \<and> v \<noteq> 0x02)"
| "failed_probe e = False"

text \<open>The command sequence, the device address and the size of a transfer.\<close>

definition op_of :: "flexspi_transfer \<Rightarrow> lut_index \<times> u32 \<times> u32" where
  "op_of t = (seqIndex t, deviceAddress t, dataSize t)"

subsection \<open>Predicates of the properties\<close>

text \<open>
  \<open>busy_reads c d n status w\<close>: the state after \<open>n\<close> reads of status register 1 in a row
  from \<open>w\<close>, when each of them succeeds and reads bit 0 set; \<open>None\<close> otherwise.
\<close>

fun busy_reads ::
  "'s collaborators \<Rightarrow> flash_flexspi_nor_data \<Rightarrow> nat \<Rightarrow> u32 \<Rightarrow> 's world
     \<Rightarrow> (u32 \<times> 's world) option" where
  "busy_reads c d 0 status w = Some (status, w)"
| "busy_reads c d (Suc n) status w =
     (case flash_flexspi_nor_read_status c d status w of
        (ret, status', w') \<Rightarrow>
          if ret = 0 \<and> status' AND 1 \<noteq> 0 then busy_reads c d n status' w' else None)"

text \<open>The device answers every wait: from no state does the poll loop run forever.\<close>

definition responsive :: "'s collaborators \<Rightarrow> flash_flexspi_nor_data \<Rightarrow> bool" where
  "responsive c d = (\<forall>w. flash_flexspi_nor_wait_bus_busy c d w \<noteq> None)"

text \<open>The bytes of a transfer lie in one page and there is at least one of them.\<close>

definition within_page :: "build_config \<Rightarrow> flexspi_transfer \<Rightarrow> bool" where
  "within_page k t =
     (0 < unat (dataSize t) \<and>
      unat (deviceAddress t) div unat (SPI_NOR_PAGE_SIZE k) =
        (unat (deviceAddress t) + unat (dataSize t) - 1) div unat (SPI_NOR_PAGE_SIZE k))"

text \<open>
  The erase transfers that a sector-aligned request is to issue, each as command
  sequence, device address and size: one chip erase for the whole device, else one block
  erase per block when offset and size are multiples of the block size, else one sector
  erase per sector.
\<close>

definition erase_ops ::
  "build_config \<Rightarrow> flash_flexspi_nor_data \<Rightarrow> u32 \<Rightarrow> u32 \<Rightarrow> (lut_index \<times> u32 \<times> u32) list" where
  "erase_ops k d offset sz =
     (if offset = 0 \<and> sz = flashSize (config d) * KB 1 then [(ERASE_CHIP, 0, 0)]
      else if offset mod SPI_NOR_BLOCK_SIZE k = 0 \<and> sz mod SPI_NOR_BLOCK_SIZE k = 0
      then map (\<lambda>j. (ERASE_BLOCK, offset + of_nat j * SPI_NOR_BLOCK_SIZE k, 0))
             [0 ..< unat (sz div SPI_NOR_BLOCK_SIZE k)]
      else map (\<lambda>j. (ERASE_SECTOR, offset + of_nat j * SPI_NOR_SECTOR_SIZE k, 0))
             [0 ..< unat (sz div SPI_NOR_SECTOR_SIZE k)])"

subsection \<open>Two concrete collaborators\<close>

text \<open>
  A device that is busy for two status reads after every mutating transfer; its state is
  the number of busy answers left. \<open>sr2\<close> is what status register 2 reads.
\<close>

definition sim_flash :: "bool \<Rightarrow> u32 \<Rightarrow> nat collaborators" where
  "sim_flash xip sr2 =
     \<lparr>co_transfer = (\<lambda>t n.
         if seqIndex t = READ_STATUS_REG1 then (0, if n = 0 then 0 else 1, n - 1)
         else if seqIndex t = READ_STATUS_REG2 then (0, sr2, n)
         else if mutating (seqIndex t) then (0, 0, 2)
         else (0, 0, n)),
      co_reset = (\<lambda>n. n),
      co_is_running_xip = (\<lambda>n. xip),
      co_get_ahb_address = (\<lambda>n p offset. 0x60000000 + offset),
      co_mem = (\<lambda>n a. 0xFF),
      co_wait_bus_idle = (\<lambda>n. n),
      co_set_device_config = (\<lambda>cfg p n. (0, n)),
      co_device_is_ready = (\<lambda>n. True),
      co_irq_lock = (\<lambda>n. (1, n)),
      co_irq_unlock = (\<lambda>key n. n),
      co_dcache_invalidate = (\<lambda>a len n. n)\<rparr>"

text \<open>A controller on which every transfer fails with \<open>- EIO\<close>.\<close>

definition dead_bus :: "nat collaborators" where
  "dead_bus = (sim_flash False 0)\<lparr>co_transfer := (\<lambda>t n. (- EIO, 0, n))\<rparr>"

definition w25q128jv :: "flash_flexspi_nor_data" where
  "w25q128jv =
     \<lparr>config = \<lparr>flashSize = 16384\<rparr>, dev_port = 0,
      layout = \<lparr>pages_count = 4096, pages_size = 4096\<rparr>,
      flash_params = \<lparr>write_block_size = 1, erase_value = 0xFF\<rparr>\<rparr>"

definition spi_nor :: "bool \<Rightarrow> bool \<Rightarrow> build_config" where
  "spi_nor cache wbuf =
     \<lparr>SPI_NOR_PAGE_SIZE = 256, SPI_NOR_SECTOR_SIZE = 4096, SPI_NOR_BLOCK_SIZE = 65536,
      CONFIG_HAS_MCUX_CACHE = cache, CONFIG_FLASH_MCUX_FLEXSPI_NOR_WRITE_BUFFER = wbuf\<rparr>"

definition world0 :: "nat world" where
  "world0 = \<lparr>ctrl = 0, trace = [], nor_write_buf = replicate 256 0\<rparr>"

section \<open>Auxiliary facts\<close>

subsection \<open>Page arithmetic\<close>

lemma chunk_nat:
  fixes a p l :: nat
  assumes "0 < p" "0 < l"
  defines "i \<equiv> min (p - a mod p) l"
  shows "0 < i" "i \<le> l" "a div p = (a + i - 1) div p"
proof -
  have r: "a mod p < p" using assms by simp
  then show "0 < i" "i \<le> l" using assms by (auto simp: i_def)
  define q where "q = a div p"
  define r where "r = a mod p"
  have a: "a = p * q + r" by (simp add: q_def r_def)
  have "r < p" using assms(1) by (simp add: r_def)
  moreover have "i \<le> p - r" by (simp add: i_def r_def)
  ultimately have "p * q \<le> a + i - 1" "a + i - 1 < p * Suc q"
    using \<open>0 < i\<close> unfolding a by simp_all
  then have "(a + i - 1) div p = q"
    by (intro div_nat_eqI) (simp_all add: mult.commute)
  then show "a div p = (a + i - 1) div p" by (simp add: q_def)
qed

lemma chunk_word:
  fixes offset P len :: u32
  assumes "P \<noteq> 0" "len \<noteq> 0"
  defines "i \<equiv> min (P - offset mod P) len"
  shows "i \<noteq> 0" "i \<le> len" "unat (len - i) < unat len"
    "unat offset div unat P = (unat offset + unat i - 1) div unat P"
proof -
  have p: "0 < unat P" and l: "0 < unat len" using assms by (simp_all add: unat_gt_0)
  have m: "offset mod P < P" using assms(1) by (simp add: word_mod_less_divisor word_neq_0_conv)
  have "unat (P - offset mod P) = unat P - unat offset mod unat P"
    using m by (simp add: unat_sub unat_mod)
  then have ui: "unat i = min (unat P - unat offset mod unat P) (unat len)"
    unfolding i_def min_def by (auto simp: word_le_nat_alt)
  from chunk_nat [OF p l, of "unat offset"] ui
  have a: "0 < unat i" "unat i \<le> unat len"
      "unat offset div unat P = (unat offset + unat i - 1) div unat P" by simp_all
  show "i \<noteq> 0" using a(1) by (simp add: unat_gt_0)
  show "i \<le> len" using a(2) by (simp add: word_le_nat_alt)
  then have "unat (len - i) = unat len - unat i" by (simp add: unat_sub)
  then show "unat (len - i) < unat len" using a(1,2) by simp
  show "unat offset div unat P = (unat offset + unat i - 1) div unat P" by (rule a(3))
qed

subsection \<open>Bus traces as cycles\<close>

lemma cycles_append:
  "cycles ph tr = Some ts \<Longrightarrow> cycles ph (tr @ tr') = map_option (\<lambda>xs. ts @ xs) (cycles Ready tr')"
proof (induction ph tr arbitrary: ts rule: cycles.induct)
  case 1
  then show ?case by (simp add: option.map_ident)
next
  case (4 t r v es)
  have "(@) (t # zs) = (\<lambda>xs. t # zs @ xs)" for zs by (rule ext) simp
  with 4 show ?case by (auto split: if_splits simp: option.map_comp comp_def)
qed (auto split: if_splits)

lemma busy_not_last: "busy_poll e \<Longrightarrow> \<not> last_poll e"
  by (cases e) auto

lemma wait_polls_Cons:
  "ps \<noteq> [] \<Longrightarrow> wait_polls (e # ps) = (busy_poll e \<and> wait_polls ps)"
  by (cases ps) auto

lemma wait_polls_are_polls: "wait_polls ps \<Longrightarrow> ps \<noteq> [] \<and> list_all is_poll ps"
proof (induction ps rule: wait_polls.induct)
  case (2 e)
  then show ?case by (cases e) auto
next
  case (3 e e' es)
  then show ?case by (cases e) auto
qed simp

lemma cycles_polls:
  "wait_polls ps \<Longrightarrow> cycles Waiting (ps @ Reset # tr) = cycles Ready tr"
proof (induction ps rule: wait_polls.induct)
  case (2 e)
  then show ?case by (cases "busy_poll e") (auto dest: busy_not_last)
qed auto

lemma cycles_cycle:
  assumes "seqIndex t1 = WRITE_ENABLE" "mutating (seqIndex t2)" "wait_polls ps"
  shows "cycles Ready (Transfer t1 r1 v1 # Transfer t2 r2 v2 # ps @ Reset # tr)
           = map_option (Cons t2) (cycles Ready tr)"
  using assms by (simp add: cycles_polls)



lemma cycles_mutations:
  "cycles ph tr = Some ts \<Longrightarrow> Transfer t r v \<in> set tr \<Longrightarrow> mutating (seqIndex t) \<Longrightarrow> t \<in> set ts"
  by (induction ph tr arbitrary: ts rule: cycles.induct) (auto split: if_splits)

subsection \<open>What the primitives add to the trace\<close>

lemma transfer_trace:
  "memc_flexspi_transfer c t w = (r, v, w') \<Longrightarrow>
     trace w' = trace w @ [Transfer t r v] \<and> nor_write_buf w' = nor_write_buf w"
  by (auto simp: memc_flexspi_transfer_def log_def split: prod.splits)

lemma reset_trace [simp]:
  "trace (memc_flexspi_reset c w) = trace w @ [Reset]"
  "nor_write_buf (memc_flexspi_reset c w) = nor_write_buf w"
  by (simp_all add: memc_flexspi_reset_def log_def)

lemma read_status_trace:
  "flash_flexspi_nor_read_status c d st w = (r, v, w') \<Longrightarrow>
     \<exists>t. trace w' = trace w @ [Transfer t r v] \<and> seqIndex t = READ_STATUS_REG1
        \<and> nor_write_buf w' = nor_write_buf w"
  unfolding flash_flexspi_nor_read_status_def
  by (drule transfer_trace) simp

lemma write_enable_trace:
  "\<exists>t r v. trace (snd (flash_flexspi_nor_write_enable c d w)) = trace w @ [Transfer t r v]
     \<and> seqIndex t = WRITE_ENABLE
     \<and> nor_write_buf (snd (flash_flexspi_nor_write_enable c d w)) = nor_write_buf w"
  by (auto simp: flash_flexspi_nor_write_enable_def split: prod.splits dest!: transfer_trace)

lemma page_program_trace:
  "\<exists>t r v. trace (snd (flash_flexspi_nor_page_program c d offset buffer len w))
       = trace w @ [Transfer t r v]
     \<and> op_of t = (PAGE_PROGRAM_QUAD_INPUT, offset, len)
     \<and> data t = Bytes (take (unat len) buffer)
     \<and> nor_write_buf (snd (flash_flexspi_nor_page_program c d offset buffer len w))
       = nor_write_buf w"
  by (auto simp: flash_flexspi_nor_page_program_def op_of_def split: prod.splits
           dest!: transfer_trace)

lemma erase_sector_trace:
  "\<exists>t r v. trace (snd (flash_flexspi_nor_erase_sector c d offset w)) = trace w @ [Transfer t r v]
     \<and> op_of t = (ERASE_SECTOR, offset, 0)
     \<and> nor_write_buf (snd (flash_flexspi_nor_erase_sector c d offset w)) = nor_write_buf w"
  by (auto simp: flash_flexspi_nor_erase_sector_def op_of_def split: prod.splits
           dest!: transfer_trace)

lemma erase_block_trace:
  "\<exists>t r v. trace (snd (flash_flexspi_nor_erase_block c d offset w)) = trace w @ [Transfer t r v]
     \<and> op_of t = (ERASE_BLOCK, offset, 0)
     \<and> nor_write_buf (snd (flash_flexspi_nor_erase_block c d offset w)) = nor_write_buf w"
  by (auto simp: flash_flexspi_nor_erase_block_def op_of_def split: prod.splits
           dest!: transfer_trace)

lemma erase_chip_trace:
  "\<exists>t r v. trace (snd (flash_flexspi_nor_erase_chip c d w)) = trace w @ [Transfer t r v]
     \<and> op_of t = (ERASE_CHIP, 0, 0)
     \<and> nor_write_buf (snd (flash_flexspi_nor_erase_chip c d w)) = nor_write_buf w"
  by (auto simp: flash_flexspi_nor_erase_chip_def op_of_def split: prod.splits
           dest!: transfer_trace)

subsection \<open>The poll loop\<close>

lemma wait_loop_trace:
  assumes "wait_bus_busy_loop c d st w = Some y"
  shows "\<exists>ps. trace (snd y) = trace w @ ps \<and> ps \<noteq> [] \<and> list_all is_poll ps
        \<and> nor_write_buf (snd y) = nor_write_buf w \<and> wait_polls ps"
  using assms
proof (rule wait_bus_busy_loop.raw_induct [rotated, where P = "\<lambda>c d st w y.
     \<exists>ps. trace (snd y) = trace w @ ps \<and> ps \<noteq> [] \<and> list_all is_poll ps
        \<and> nor_write_buf (snd y) = nor_write_buf w \<and> wait_polls ps"])
  fix loop :: "'a collaborators \<Rightarrow> flash_flexspi_nor_data \<Rightarrow> u32 \<Rightarrow> 'a world \<Rightarrow> (int \<times> 'a world) option"
  fix c d st w y
  assume IH: "\<And>c d st w y. loop c d st w = Some y \<Longrightarrow>
      \<exists>ps. trace (snd y) = trace w @ ps \<and> ps \<noteq> [] \<and> list_all is_poll ps
        \<and> nor_write_buf (snd y) = nor_write_buf w \<and> wait_polls ps"
    and body: "(case flash_flexspi_nor_read_status c d st w of
        (ret, status', w') \<Rightarrow>
          if ret \<noteq> 0 then Some (ret, w')
          else if status' AND 1 \<noteq> 0 then loop c d status' w'
          else Some (0, w')) = Some y"
  obtain ret st' w1 where rs: "flash_flexspi_nor_read_status c d st w = (ret, st', w1)"
    by (cases "flash_flexspi_nor_read_status c d st w") auto
  from read_status_trace [OF rs] obtain t where
    t: "trace w1 = trace w @ [Transfer t ret st']" "seqIndex t = READ_STATUS_REG1"
       "nor_write_buf w1 = nor_write_buf w" by blast
  show "\<exists>ps. trace (snd y) = trace w @ ps \<and> ps \<noteq> [] \<and> list_all is_poll ps
        \<and> nor_write_buf (snd y) = nor_write_buf w \<and> wait_polls ps"
  proof (cases "ret = 0 \<and> st' AND 1 \<noteq> 0")
    case True
    with body rs have "loop c d st' w1 = Some y" by simp
    from IH [OF this] obtain ps where
      ps: "trace (snd y) = trace w1 @ ps" "ps \<noteq> []" "list_all is_poll ps"
        "nor_write_buf (snd y) = nor_write_buf w1" "wait_polls ps"
      by blast
    have "wait_polls (Transfer t ret st' # ps)"
      using True t(2) ps(2,5) by (simp add: wait_polls_Cons)
    with t ps show ?thesis by (intro exI [of _ "Transfer t ret st' # ps"]) simp
  next
    case False
    with body rs have "snd y = w1" by (auto split: if_splits)
    moreover have "wait_polls [Transfer t ret st']" using False t(2) by simp
    ultimately show ?thesis using t by (intro exI [of _ "[Transfer t ret st']"]) simp
  qed
qed

lemma wait_trace:
  "flash_flexspi_nor_wait_bus_busy c d w = Some (r, w') \<Longrightarrow>
     \<exists>ps. trace w' = trace w @ ps \<and> ps \<noteq> [] \<and> list_all is_poll ps
        \<and> nor_write_buf w' = nor_write_buf w \<and> wait_polls ps"
  unfolding flash_flexspi_nor_wait_bus_busy_def by (drule wait_loop_trace) simp

lemma is_poll_is_bus: "list_all is_poll ps \<Longrightarrow> list_all is_bus ps"
proof (induction ps)
  case (Cons e ps)
  then show ?case by (cases e) auto
qed simp

lemma cycle_trace:
  assumes w1: "trace w1 = trace w @ [Transfer t1 r1 v1]" "seqIndex t1 = WRITE_ENABLE"
    and w2: "trace w2 = trace w1 @ [Transfer t2 r2 v2]" "mutating (seqIndex t2)"
    and w3: "flash_flexspi_nor_wait_bus_busy c d w2 = Some (rr, w3)"
  shows "\<exists>cyc. trace (memc_flexspi_reset c w3) = trace w @ cyc \<and> list_all is_bus cyc
     \<and> (\<forall>tr. cycles Ready (cyc @ tr) = map_option (Cons t2) (cycles Ready tr))
     \<and> nor_write_buf w3 = nor_write_buf w2"
proof -
  from wait_trace [OF w3] obtain ps where
    ps: "trace w3 = trace w2 @ ps" "ps \<noteq> []" "list_all is_poll ps"
      "nor_write_buf w3 = nor_write_buf w2" "wait_polls ps" by blast
  let ?cyc = "Transfer t1 r1 v1 # Transfer t2 r2 v2 # ps @ [Reset]"
  have "trace (memc_flexspi_reset c w3) = trace w @ ?cyc" using w1 w2 ps by simp
  moreover have "list_all is_bus ?cyc" using is_poll_is_bus [OF ps(3)] by simp
  moreover have "cycles Ready (?cyc @ tr) = map_option (Cons t2) (cycles Ready tr)" for tr
    using cycles_cycle [OF w1(2) w2(2) ps(5)] by simp
  ultimately show ?thesis using ps(4) by blast
qed

subsection \<open>The write loop\<close>

lemma write_loop_0: "write_loop c k d offset src 0 w = Some w"
  by (subst write_loop.simps) simp

lemma write_loop_step:
  assumes len: "len \<noteq> 0" and run: "write_loop c k d offset src len w = Some w'"
  defines "i \<equiv> min (SPI_NOR_PAGE_SIZE k - offset mod SPI_NOR_PAGE_SIZE k) len"
  shows "\<exists>t cyc w4. trace w4 = trace w @ cyc \<and> list_all is_bus cyc
     \<and> (\<forall>tr. cycles Ready (cyc @ tr) = map_option (Cons t) (cycles Ready tr))
     \<and> op_of t = (PAGE_PROGRAM_QUAD_INPUT, offset, i)
     \<and> data t = Bytes (take (unat i)
          (if CONFIG_FLASH_MCUX_FLEXSPI_NOR_WRITE_BUFFER k
           then take (unat i) src @ drop (unat i) (nor_write_buf w) else src))
     \<and> write_loop c k d (offset + i) (drop (unat i) src) (len - i) w4 = Some w'"
proof -
  define w1 where "w1 = (if CONFIG_FLASH_MCUX_FLEXSPI_NOR_WRITE_BUFFER k
                  then w\<lparr>nor_write_buf := take (unat i) src @ drop (unat i) (nor_write_buf w)\<rparr>
                  else w)"
  define w2 where "w2 = snd (flash_flexspi_nor_write_enable c d w1)"
  define buf where "buf = (if CONFIG_FLASH_MCUX_FLEXSPI_NOR_WRITE_BUFFER k
                         then nor_write_buf w2 else src)"
  define w3 where "w3 = snd (flash_flexspi_nor_page_program c d offset buf i w2)"
  have body: "flash_flexspi_nor_wait_bus_busy c d w3 \<bind>
              (\<lambda>(uu, w4). write_loop c k d (offset + i) (drop (unat i) src) (len - i)
                   (memc_flexspi_reset c w4)) = Some w'"
    using run len unfolding w3_def buf_def w2_def w1_def i_def
    by (subst (asm) write_loop.simps) (simp add: Let_def)
  then obtain rr w4 where
    wt: "flash_flexspi_nor_wait_bus_busy c d w3 = Some (rr, w4)"
    and rec: "write_loop c k d (offset + i) (drop (unat i) src) (len - i)
                (memc_flexspi_reset c w4) = Some w'"
    by (auto simp: bind_eq_Some_conv)
  from write_enable_trace [of c d w1] obtain t1 r1 v1 where
    t1: "trace w2 = trace w1 @ [Transfer t1 r1 v1]" "seqIndex t1 = WRITE_ENABLE"
      "nor_write_buf w2 = nor_write_buf w1" unfolding w2_def by blast
  from page_program_trace [of c d offset buf i w2] obtain t r v where
    t: "trace w3 = trace w2 @ [Transfer t r v]" "op_of t = (PAGE_PROGRAM_QUAD_INPUT, offset, i)"
      "data t = Bytes (take (unat i) buf)" unfolding w3_def by blast
  have mut: "mutating (seqIndex t)" using t(2) by (simp add: op_of_def)
  have tw1: "trace w1 = trace w" by (simp add: w1_def)
  have t1': "trace w2 = trace w @ [Transfer t1 r1 v1]" using t1(1) tw1 by simp
  from cycle_trace [OF t1' t1(2) t(1) mut wt]
  obtain cyc where
    cyc: "trace (memc_flexspi_reset c w4) = trace w @ cyc" "list_all is_bus cyc"
      "\<forall>tr. cycles Ready (cyc @ tr) = map_option (Cons t) (cycles Ready tr)"
    by blast
  have "buf = (if CONFIG_FLASH_MCUX_FLEXSPI_NOR_WRITE_BUFFER k
           then take (unat i) src @ drop (unat i) (nor_write_buf w) else src)"
    using t1(3) by (simp add: buf_def w1_def)
  with t cyc rec show ?thesis by blast
qed


lemma write_loop_cycles:
  assumes P: "SPI_NOR_PAGE_SIZE k \<noteq> 0"
  shows "write_loop c k d offset src len w = Some w' \<Longrightarrow>
     \<exists>tr ts. trace w' = trace w @ tr \<and> list_all is_bus tr \<and> cycles Ready tr = Some ts
       \<and> list_all (\<lambda>t. seqIndex t = PAGE_PROGRAM_QUAD_INPUT \<and> within_page k t) ts"
proof (induction "unat len" arbitrary: offset src len w rule: less_induct)
  case less
  show ?case
  proof (cases "len = 0")
    case True
    with less.prems have "w' = w" by (simp add: write_loop_0)
    then show ?thesis by (intro exI [of _ "[]"]) simp
  next
    case False
    define i where "i = min (SPI_NOR_PAGE_SIZE k - offset mod SPI_NOR_PAGE_SIZE k) len"
    from write_loop_step [OF False less.prems, folded i_def] obtain t cyc w4 where
      s: "trace w4 = trace w @ cyc" "list_all is_bus cyc"
        "\<forall>tr. cycles Ready (cyc @ tr) = map_option (Cons t) (cycles Ready tr)"
        "op_of t = (PAGE_PROGRAM_QUAD_INPUT, offset, i)"
        "write_loop c k d (offset + i) (drop (unat i) src) (len - i) w4 = Some w'"
      by blast
    note a = chunk_word [OF P False, of offset, folded i_def]
    from less.hyps [OF a(3) s(5)] obtain tr ts where
      r: "trace w' = trace w4 @ tr" "list_all is_bus tr" "cycles Ready tr = Some ts"
        "list_all (\<lambda>t. seqIndex t = PAGE_PROGRAM_QUAD_INPUT \<and> within_page k t) ts"
      by blast
    have "within_page k t" using a(1,4) s(4)
      by (simp add: within_page_def op_of_def unat_gt_0)
    moreover have "seqIndex t = PAGE_PROGRAM_QUAD_INPUT" using s(4) by (simp add: op_of_def)
    ultimately show ?thesis using s r
      by (intro exI [of _ "cyc @ tr"] exI [of _ "t # ts"]) simp
  qed
qed

lemma write_loop_returns:
  assumes P: "SPI_NOR_PAGE_SIZE k \<noteq> 0" and resp: "responsive c d"
  shows "write_loop c k d offset src len w \<noteq> None"
proof (induction "unat len" arbitrary: offset src len w rule: less_induct)
  case less
  show ?case
  proof (cases "len = 0")
    case True
    then show ?thesis by (simp add: write_loop_0)
  next
    case False
    note a = chunk_word [OF P False, of offset]
    show ?thesis
      using False resp less.hyps [OF a(3)]
      by (subst write_loop.simps)
         (auto simp: Let_def responsive_def bind_eq_None_conv split: prod.splits)
  qed
qed

subsection \<open>The write operation\<close>

lemma emitted_append: "trace w' = trace w @ tr \<Longrightarrow> emitted w w' = tr"
  by (simp add: emitted_def)

lemma extends_emitted: "trace w' = trace w @ tr \<Longrightarrow> trace w' = trace w @ emitted w w'"
  by (simp add: emitted_def)

lemma bus_append [simp]: "bus (xs @ ys) = bus xs @ bus ys"
  by (simp add: bus_def)

lemma bus_all: "list_all is_bus tr \<Longrightarrow> bus tr = tr"
  by (simp add: bus_def list_all_iff)

lemma write_parts:
  assumes "flash_flexspi_nor_write c k d offset buffer len w = Some (r, w')"
  shows "\<exists>w1 w2 pre post. r = 0 \<and> write_loop c k d offset buffer len w1 = Some w2
     \<and> trace w1 = trace w @ pre \<and> trace w' = trace w2 @ post \<and> bus pre = [] \<and> bus post = []
     \<and> nor_write_buf w1 = nor_write_buf w"
proof -
  define kw where "kw = (if memc_flexspi_is_running_xip c w then irq_lock c w else (0, w))"
  define w1 where "w1 = snd kw"
  have pre: "\<exists>pre. trace w1 = trace w @ pre \<and> bus pre = []"
    and nb: "nor_write_buf w1 = nor_write_buf w"
    by (auto simp: w1_def kw_def irq_lock_def log_def bus_def split: prod.splits)
  from assms obtain w2 where
    loop: "write_loop c k d offset buffer len w1 = Some w2"
    and w': "w' = (let w3 = (if memc_flexspi_is_running_xip c w2 then irq_unlock c (fst kw) w2 else w2)
        in if CONFIG_HAS_MCUX_CACHE k
           then DCACHE_InvalidateByRange c (memc_flexspi_get_ahb_address c w (dev_port d) offset) len w3
           else w3)"
    and r: "r = 0"
    unfolding flash_flexspi_nor_write_def w1_def kw_def
    by (auto simp: Let_def bind_eq_Some_conv split: prod.splits if_splits)
  have "\<exists>post. trace w' = trace w2 @ post \<and> bus post = []"
    unfolding w' by (auto simp: Let_def irq_unlock_def DCACHE_InvalidateByRange_def log_def bus_def)
  with pre nb loop r show ?thesis by blast
qed

lemma write_bus_cycles:
  assumes P: "SPI_NOR_PAGE_SIZE k \<noteq> 0"
    and run: "flash_flexspi_nor_write c k d offset buffer len w = Some (r, w')"
  shows "trace w' = trace w @ emitted w w'
     \<and> (\<exists>ts. cycles Ready (bus (emitted w w')) = Some ts
          \<and> list_all (\<lambda>t. seqIndex t = PAGE_PROGRAM_QUAD_INPUT \<and> within_page k t) ts)"
proof -
  from write_parts [OF run] obtain w1 w2 pre post where
    p: "write_loop c k d offset buffer len w1 = Some w2"
      "trace w1 = trace w @ pre" "trace w' = trace w2 @ post" "bus pre = []" "bus post = []"
    by blast
  from write_loop_cycles [OF P p(1)] obtain tr ts where
    t: "trace w2 = trace w1 @ tr" "list_all is_bus tr" "cycles Ready tr = Some ts"
      "list_all (\<lambda>t. seqIndex t = PAGE_PROGRAM_QUAD_INPUT \<and> within_page k t) ts"
    by blast
  have tr: "trace w' = trace w @ pre @ tr @ post" using p t by simp
  then have "emitted w w' = pre @ tr @ post" by (rule emitted_append)
  then have "bus (emitted w w') = tr" using p(4,5) bus_all [OF t(2)] by simp
  with t extends_emitted [OF tr] show ?thesis by simp
qed

lemma write_returns:
  assumes "SPI_NOR_PAGE_SIZE k \<noteq> 0" "responsive c d"
  shows "flash_flexspi_nor_write c k d offset buffer len w \<noteq> None"
proof -
  define kw where "kw = (if memc_flexspi_is_running_xip c w then irq_lock c w else (0, w))"
  obtain w2 where "write_loop c k d offset buffer len (snd kw) = Some w2"
    using write_loop_returns [OF assms, of offset buffer len "snd kw"] by auto
  then show ?thesis
    unfolding flash_flexspi_nor_write_def kw_def [symmetric]
    by (cases kw) (simp add: Let_def)
qed

lemma bus_set: "Transfer t r v \<in> set tr \<Longrightarrow> Transfer t r v \<in> set (bus tr)"
  by (simp add: bus_def)


subsection \<open>The simulated device\<close>

lemma sim_flash_wait:
  "ctrl w = n \<Longrightarrow> wait_bus_busy_loop (sim_flash xip sr2) d st w \<noteq> None"
proof (induction n arbitrary: st w)
  case 0
  then show ?case
    by (subst wait_bus_busy_loop.simps)
       (simp add: flash_flexspi_nor_read_status_def memc_flexspi_transfer_def sim_flash_def)
next
  case (Suc n)
  obtain ret st' w1 where
    rs: "flash_flexspi_nor_read_status (sim_flash xip sr2) d st w = (ret, st', w1)"
    by (cases "flash_flexspi_nor_read_status (sim_flash xip sr2) d st w") auto
  with Suc.prems have "ret = 0" "st' = 1" "ctrl w1 = n"
    by (auto simp: flash_flexspi_nor_read_status_def memc_flexspi_transfer_def sim_flash_def
          log_def)
  with rs Suc.IH [of w1 1] show ?case
    by (subst wait_bus_busy_loop.simps) simp
qed

lemma sim_flash_responsive: "responsive (sim_flash xip sr2) d"
  by (simp add: responsive_def flash_flexspi_nor_wait_bus_busy_def sim_flash_wait)



subsection \<open>One chunk of the write loop\<close>

lemma staged_bytes:
  "n \<le> length src \<Longrightarrow> take n (if b then take n src @ drop n buf else src) = take n src"
  by simp

lemma write_loop_chunk:
  assumes len: "len \<noteq> 0" and run: "write_loop c k d offset src len w = Some w'"
    and i: "min (SPI_NOR_PAGE_SIZE k - offset mod SPI_NOR_PAGE_SIZE k) len = i"
    and src: "unat i \<le> length src"
  shows "\<exists>t cyc w4. trace w4 = trace w @ cyc \<and> list_all is_bus cyc
     \<and> (\<forall>tr. cycles Ready (cyc @ tr) = map_option (Cons t) (cycles Ready tr))
     \<and> op_of t = (PAGE_PROGRAM_QUAD_INPUT, offset, i)
     \<and> data t = Bytes (take (unat i) src)
     \<and> write_loop c k d (offset + i) (drop (unat i) src) (len - i) w4 = Some w'"
  using write_loop_step [OF len run] unfolding i staged_bytes [OF src] .


subsection \<open>The erase loops\<close>

lemma unat_succ_less: "unat (i + 1) = Suc (unat i)" if "i < n" for i n :: u32
proof -
  have "unat i < unat n" using that by (simp add: word_less_nat_alt)
  moreover have "unat n < 2 ^ 32" using unsigned_less [of n] by simp
  ultimately have "unat i + unat (1 :: u32) < 2 ^ LENGTH(32)" by simp
  then have "unat (i + 1) = unat i + unat (1 :: u32)" by (simp only: unat_add_lem)
  then show ?thesis by simp
qed

lemma upt_offsets:
  fixes offset step :: u32
  shows "map (\<lambda>j. (x, offset + of_nat j * step, z)) [0..<Suc m]
       = (x, offset, z) # map (\<lambda>j. (x, (offset + step) + of_nat j * step, z)) [0..<m]"
proof -
  have "[0..<Suc m] = 0 # map Suc [0..<m]"
    by (simp add: upt_conv_Cons map_Suc_upt del: upt_Suc)
  then show ?thesis by (simp add: algebra_simps del: upt_Suc)
qed

lemma erase_block_loop_cycles:
  "unat num - unat i = m \<Longrightarrow> erase_block_loop c k d i num offset w = Some w' \<Longrightarrow>
     \<exists>tr ts. trace w' = trace w @ tr \<and> list_all is_bus tr \<and> cycles Ready tr = Some ts
       \<and> map op_of ts
           = map (\<lambda>j. (ERASE_BLOCK, offset + of_nat j * SPI_NOR_BLOCK_SIZE k, 0)) [0..<m]"
proof (induction m arbitrary: i offset w)
  case 0
  then have "\<not> i < num" by (simp add: word_less_nat_alt)
  with 0(2) have "w' = w" by (subst (asm) erase_block_loop.simps) simp
  then show ?case by (intro exI [of _ "[]"]) simp
next
  case (Suc m)
  then have lt: "i < num" by (simp add: word_less_nat_alt)
  define w1 where "w1 = snd (flash_flexspi_nor_write_enable c d w)"
  define w2 where "w2 = snd (flash_flexspi_nor_erase_block c d offset w1)"
  have "flash_flexspi_nor_wait_bus_busy c d w2 \<bind>
          (\<lambda>(uu, w3). erase_block_loop c k d (i + 1) num (offset + SPI_NOR_BLOCK_SIZE k)
             (memc_flexspi_reset c w3)) = Some w'"
    using Suc.prems(2) lt unfolding w2_def w1_def
    by (subst (asm) erase_block_loop.simps) (simp add: Let_def)
  then obtain rr w3 where
    wt: "flash_flexspi_nor_wait_bus_busy c d w2 = Some (rr, w3)"
    and rec: "erase_block_loop c k d (i + 1) num (offset + SPI_NOR_BLOCK_SIZE k)
                (memc_flexspi_reset c w3) = Some w'"
    by (auto simp: bind_eq_Some_conv)
  from write_enable_trace [of c d w] obtain t1 r1 v1 where
    t1: "trace w1 = trace w @ [Transfer t1 r1 v1]" "seqIndex t1 = WRITE_ENABLE"
    unfolding w1_def by blast
  from erase_block_trace [of c d offset w1] obtain t r v where
    t: "trace w2 = trace w1 @ [Transfer t r v]" "op_of t = (ERASE_BLOCK, offset, 0)"
    unfolding w2_def by blast
  have mut: "mutating (seqIndex t)" using t(2) by (simp add: op_of_def)
  from cycle_trace [OF t1 t(1) mut wt] obtain cyc where
    cyc: "trace (memc_flexspi_reset c w3) = trace w @ cyc" "list_all is_bus cyc"
      "\<forall>tr. cycles Ready (cyc @ tr) = map_option (Cons t) (cycles Ready tr)"
    by blast
  have "unat num - unat (i + 1) = m" using Suc.prems(1) by (simp add: unat_succ_less [OF lt])
  from Suc.IH [OF this rec] obtain tr ts where
    r: "trace w' = trace (memc_flexspi_reset c w3) @ tr" "list_all is_bus tr"
      "cycles Ready tr = Some ts"
      "map op_of ts = map (\<lambda>j. (ERASE_BLOCK,
          (offset + SPI_NOR_BLOCK_SIZE k) + of_nat j * SPI_NOR_BLOCK_SIZE k, 0)) [0..<m]"
    by blast
  show ?case
    using cyc r t(2) unfolding upt_offsets
    by (intro exI [of _ "cyc @ tr"] exI [of _ "t # ts"]) simp
qed

lemma erase_sector_loop_cycles:
  "unat num - unat i = m \<Longrightarrow> erase_sector_loop c k d i num offset w = Some w' \<Longrightarrow>
     \<exists>tr ts. trace w' = trace w @ tr \<and> list_all is_bus tr \<and> cycles Ready tr = Some ts
       \<and> map op_of ts
           = map (\<lambda>j. (ERASE_SECTOR, offset + of_nat j * SPI_NOR_SECTOR_SIZE k, 0)) [0..<m]"
proof (induction m arbitrary: i offset w)
  case 0
  then have "\<not> i < num" by (simp add: word_less_nat_alt)
  with 0(2) have "w' = w" by (subst (asm) erase_sector_loop.simps) simp
  then show ?case by (intro exI [of _ "[]"]) simp
next
  case (Suc m)
  then have lt: "i < num" by (simp add: word_less_nat_alt)
  define w1 where "w1 = snd (flash_flexspi_nor_write_enable c d w)"
  define w2 where "w2 = snd (flash_flexspi_nor_erase_sector c d offset w1)"
  have "flash_flexspi_nor_wait_bus_busy c d w2 \<bind>
          (\<lambda>(uu, w3). erase_sector_loop c k d (i + 1) num (offset + SPI_NOR_SECTOR_SIZE k)
             (memc_flexspi_reset c w3)) = Some w'"
    using Suc.prems(2) lt unfolding w2_def w1_def
    by (subst (asm) erase_sector_loop.simps) (simp add: Let_def)
  then obtain rr w3 where
    wt: "flash_flexspi_nor_wait_bus_busy c d w2 = Some (rr, w3)"
    and rec: "erase_sector_loop c k d (i + 1) num (offset + SPI_NOR_SECTOR_SIZE k)
                (memc_flexspi_reset c w3) = Some w'"
    by (auto simp: bind_eq_Some_conv)
  from write_enable_trace [of c d w] obtain t1 r1 v1 where
    t1: "trace w1 = trace w @ [Transfer t1 r1 v1]" "seqIndex t1 = WRITE_ENABLE"
    unfolding w1_def by blast
  from erase_sector_trace [of c d offset w1] obtain t r v where
    t: "trace w2 = trace w1 @ [Transfer t r v]" "op_of t = (ERASE_SECTOR, offset, 0)"
    unfolding w2_def by blast
  have mut: "mutating (seqIndex t)" using t(2) by (simp add: op_of_def)
  from cycle_trace [OF t1 t(1) mut wt] obtain cyc where
    cyc: "trace (memc_flexspi_reset c w3) = trace w @ cyc" "list_all is_bus cyc"
      "\<forall>tr. cycles Ready (cyc @ tr) = map_option (Cons t) (cycles Ready tr)"
    by blast
  have "unat num - unat (i + 1) = m" using Suc.prems(1) by (simp add: unat_succ_less [OF lt])
  from Suc.IH [OF this rec] obtain tr ts where
    r: "trace w' = trace (memc_flexspi_reset c w3) @ tr" "list_all is_bus tr"
      "cycles Ready tr = Some ts"
      "map op_of ts = map (\<lambda>j. (ERASE_SECTOR,
          (offset + SPI_NOR_SECTOR_SIZE k) + of_nat j * SPI_NOR_SECTOR_SIZE k, 0)) [0..<m]"
    by blast
  show ?case
    using cyc r t(2) unfolding upt_offsets
    by (intro exI [of _ "cyc @ tr"] exI [of _ "t # ts"]) simp
qed

lemma erase_block_loop_returns:
  assumes "responsive c d"
  shows "unat num - unat i = m \<Longrightarrow> erase_block_loop c k d i num offset w \<noteq> None"
proof (induction m arbitrary: i offset w)
  case 0
  then have "\<not> i < num" by (simp add: word_less_nat_alt)
  then show ?case by (subst erase_block_loop.simps) simp
next
  case (Suc m)
  then have lt: "i < num" by (simp add: word_less_nat_alt)
  have "unat num - unat (i + 1) = m" using Suc.prems(1) by (simp add: unat_succ_less [OF lt])
  from Suc.IH [OF this] assms lt show ?case
    by (subst erase_block_loop.simps)
       (auto simp: Let_def responsive_def bind_eq_None_conv split: prod.splits)
qed

lemma erase_sector_loop_returns:
  assumes "responsive c d"
  shows "unat num - unat i = m \<Longrightarrow> erase_sector_loop c k d i num offset w \<noteq> None"
proof (induction m arbitrary: i offset w)
  case 0
  then have "\<not> i < num" by (simp add: word_less_nat_alt)
  then show ?case by (subst erase_sector_loop.simps) simp
next
  case (Suc m)
  then have lt: "i < num" by (simp add: word_less_nat_alt)
  have "unat num - unat (i + 1) = m" using Suc.prems(1) by (simp add: unat_succ_less [OF lt])
  from Suc.IH [OF this] assms lt show ?case
    by (subst erase_sector_loop.simps)
       (auto simp: Let_def responsive_def bind_eq_None_conv split: prod.splits)
qed

subsection \<open>The erase operation\<close>

lemma erase_misaligned:
  "offset mod SPI_NOR_SECTOR_SIZE k \<noteq> 0 \<or> sz mod SPI_NOR_SECTOR_SIZE k \<noteq> 0 \<Longrightarrow>
     flash_flexspi_nor_erase c k d offset sz w = Some (- EINVAL, w)"
  by (auto simp: flash_flexspi_nor_erase_def Let_def)

lemma erase_parts:
  assumes al: "offset mod SPI_NOR_SECTOR_SIZE k = 0" "sz mod SPI_NOR_SECTOR_SIZE k = 0"
    and run: "flash_flexspi_nor_erase c k d offset sz w = Some (r, w')"
  shows "\<exists>w1 w2 pre post. r = 0
     \<and> (if offset = 0 \<and> sz = flashSize (config d) * KB 1 then
           flash_flexspi_nor_wait_bus_busy c d
             (snd (flash_flexspi_nor_erase_chip c d (snd (flash_flexspi_nor_write_enable c d w1))))
           \<bind> (\<lambda>(uu, w1c). Some (memc_flexspi_reset c w1c))
         else if 0 = offset mod SPI_NOR_BLOCK_SIZE k \<and> 0 = sz mod SPI_NOR_BLOCK_SIZE k
         then erase_block_loop c k d 0 (sz div SPI_NOR_BLOCK_SIZE k) offset w1
         else erase_sector_loop c k d 0 (sz div SPI_NOR_SECTOR_SIZE k) offset w1) = Some w2
     \<and> trace w1 = trace w @ pre \<and> trace w' = trace w2 @ post \<and> bus pre = [] \<and> bus post = []"
proof -
  define kw where "kw = (if memc_flexspi_is_running_xip c w then irq_lock c w else (0, w))"
  define w1 where "w1 = snd kw"
  have pre: "\<exists>pre. trace w1 = trace w @ pre \<and> bus pre = []"
    by (auto simp: w1_def kw_def irq_lock_def log_def bus_def split: prod.splits)
  from run al obtain w2 where
    body: "(if offset = 0 \<and> sz = flashSize (config d) * KB 1 then
           flash_flexspi_nor_wait_bus_busy c d
             (snd (flash_flexspi_nor_erase_chip c d (snd (flash_flexspi_nor_write_enable c d w1))))
           \<bind> (\<lambda>(uu, w1c). Some (memc_flexspi_reset c w1c))
         else if 0 = offset mod SPI_NOR_BLOCK_SIZE k \<and> 0 = sz mod SPI_NOR_BLOCK_SIZE k
         then erase_block_loop c k d 0 (sz div SPI_NOR_BLOCK_SIZE k) offset w1
         else erase_sector_loop c k d 0 (sz div SPI_NOR_SECTOR_SIZE k) offset w1) = Some w2"
    and w': "w' = (let w3 = (if memc_flexspi_is_running_xip c w2 then irq_unlock c (fst kw) w2 else w2)
        in if CONFIG_HAS_MCUX_CACHE k
           then DCACHE_InvalidateByRange c (memc_flexspi_get_ahb_address c w (dev_port d) offset) sz w3
           else w3)"
    and r: "r = 0"
    unfolding flash_flexspi_nor_erase_def w1_def kw_def
    by (cases "if memc_flexspi_is_running_xip c w then irq_lock c w else (0, w)")
       (auto simp: Let_def bind_eq_Some_conv split: if_splits)
  have "\<exists>post. trace w' = trace w2 @ post \<and> bus post = []"
    unfolding w' by (auto simp: Let_def irq_unlock_def DCACHE_InvalidateByRange_def log_def bus_def)
  with pre body r show ?thesis by blast
qed

lemma erase_chip_cycle:
  assumes "flash_flexspi_nor_wait_bus_busy c d
             (snd (flash_flexspi_nor_erase_chip c d (snd (flash_flexspi_nor_write_enable c d w1))))
           \<bind> (\<lambda>(uu, w1c). Some (memc_flexspi_reset c w1c)) = Some w2"
  shows "\<exists>tr ts. trace w2 = trace w1 @ tr \<and> list_all is_bus tr \<and> cycles Ready tr = Some ts
       \<and> map op_of ts = [(ERASE_CHIP, 0, 0)]"
proof -
  define w1a where "w1a = snd (flash_flexspi_nor_write_enable c d w1)"
  define w1b where "w1b = snd (flash_flexspi_nor_erase_chip c d w1a)"
  from assms obtain rr w1c where
    wt: "flash_flexspi_nor_wait_bus_busy c d w1b = Some (rr, w1c)"
    and w2: "w2 = memc_flexspi_reset c w1c"
    unfolding w1b_def w1a_def by (auto simp: bind_eq_Some_conv)
  from write_enable_trace [of c d w1] obtain t1 r1 v1 where
    t1: "trace w1a = trace w1 @ [Transfer t1 r1 v1]" "seqIndex t1 = WRITE_ENABLE"
    unfolding w1a_def by blast
  from erase_chip_trace [of c d w1a] obtain t r v where
    t: "trace w1b = trace w1a @ [Transfer t r v]" "op_of t = (ERASE_CHIP, 0, 0)"
    unfolding w1b_def by blast
  have mut: "mutating (seqIndex t)" using t(2) by (simp add: op_of_def)
  from cycle_trace [OF t1 t(1) mut wt] obtain cyc where
    cyc: "trace (memc_flexspi_reset c w1c) = trace w1 @ cyc" "list_all is_bus cyc"
      "\<forall>tr. cycles Ready (cyc @ tr) = map_option (Cons t) (cycles Ready tr)"
    by blast
  have "cycles Ready cyc = Some [t]" using cyc(3) [rule_format, of "[]"] by simp
  with cyc t(2) w2 show ?thesis by (intro exI [of _ cyc] exI [of _ "[t]"]) simp
qed

lemma erase_bus_cycles:
  assumes al: "offset mod SPI_NOR_SECTOR_SIZE k = 0" "sz mod SPI_NOR_SECTOR_SIZE k = 0"
    and run: "flash_flexspi_nor_erase c k d offset sz w = Some (r, w')"
  shows "r = 0 \<and> trace w' = trace w @ emitted w w'
     \<and> map_option (map op_of) (cycles Ready (bus (emitted w w')))
           = Some (erase_ops k d offset sz)"
proof -
  from erase_parts [OF al run] obtain w1 w2 pre post where
    p: "r = 0"
      "(if offset = 0 \<and> sz = flashSize (config d) * KB 1 then
           flash_flexspi_nor_wait_bus_busy c d
             (snd (flash_flexspi_nor_erase_chip c d (snd (flash_flexspi_nor_write_enable c d w1))))
           \<bind> (\<lambda>(uu, w1c). Some (memc_flexspi_reset c w1c))
         else if 0 = offset mod SPI_NOR_BLOCK_SIZE k \<and> 0 = sz mod SPI_NOR_BLOCK_SIZE k
         then erase_block_loop c k d 0 (sz div SPI_NOR_BLOCK_SIZE k) offset w1
         else erase_sector_loop c k d 0 (sz div SPI_NOR_SECTOR_SIZE k) offset w1) = Some w2"
      "trace w1 = trace w @ pre" "trace w' = trace w2 @ post" "bus pre = []" "bus post = []"
    by blast
  have "\<exists>tr ts. trace w2 = trace w1 @ tr \<and> list_all is_bus tr \<and> cycles Ready tr = Some ts
       \<and> map op_of ts = erase_ops k d offset sz"
  proof (cases "offset = 0 \<and> sz = flashSize (config d) * KB 1")
    case True
    with p(2) erase_chip_cycle [of c d w1 w2] show ?thesis by (simp add: erase_ops_def)
  next
    case nc: False
    show ?thesis
    proof (cases "0 = offset mod SPI_NOR_BLOCK_SIZE k \<and> 0 = sz mod SPI_NOR_BLOCK_SIZE k")
      case True
      from p(2) have "erase_block_loop c k d 0 (sz div SPI_NOR_BLOCK_SIZE k) offset w1 = Some w2"
        unfolding if_not_P [OF nc] if_P [OF True] .
      from erase_block_loop_cycles [OF _ this, of "unat (sz div SPI_NOR_BLOCK_SIZE k)"]
      show ?thesis unfolding erase_ops_def if_not_P [OF nc] using True by auto
    next
      case False
      from p(2) have "erase_sector_loop c k d 0 (sz div SPI_NOR_SECTOR_SIZE k) offset w1 = Some w2"
        unfolding if_not_P [OF nc] if_not_P [OF False] .
      from erase_sector_loop_cycles [OF _ this, of "unat (sz div SPI_NOR_SECTOR_SIZE k)"]
      show ?thesis unfolding erase_ops_def if_not_P [OF nc] using False by auto
    qed
  qed
  then obtain tr ts where
    t: "trace w2 = trace w1 @ tr" "list_all is_bus tr" "cycles Ready tr = Some ts"
      "map op_of ts = erase_ops k d offset sz"
    by blast
  have tr: "trace w' = trace w @ pre @ tr @ post" using p t by simp
  then have "emitted w w' = pre @ tr @ post" by (rule emitted_append)
  then have "bus (emitted w w') = tr" using p(5,6) bus_all [OF t(2)] by simp
  with t p(1) extends_emitted [OF tr] show ?thesis by simp
qed

lemma erase_returns:
  assumes "responsive c d"
  shows "flash_flexspi_nor_erase c k d offset sz w \<noteq> None"
proof -
  define kw where "kw = (if memc_flexspi_is_running_xip c w then irq_lock c w else (0, w))"
  define body where "body =
     (if offset = 0 \<and> sz = flashSize (config d) * KB 1 then
        let w1a = snd (flash_flexspi_nor_write_enable c d (snd kw));
            w1b = snd (flash_flexspi_nor_erase_chip c d w1a)
        in flash_flexspi_nor_wait_bus_busy c d w1b \<bind> (\<lambda>(uu, w1c). Some (memc_flexspi_reset c w1c))
      else if 0 = offset mod SPI_NOR_BLOCK_SIZE k \<and> 0 = sz mod SPI_NOR_BLOCK_SIZE k
      then erase_block_loop c k d 0 (sz div SPI_NOR_BLOCK_SIZE k) offset (snd kw)
      else erase_sector_loop c k d 0 (sz div SPI_NOR_SECTOR_SIZE k) offset (snd kw))"
  have 1: "erase_block_loop c k d 0 (sz div SPI_NOR_BLOCK_SIZE k) offset (snd kw) \<noteq> None"
    by (rule erase_block_loop_returns [OF assms refl])
  have 2: "erase_sector_loop c k d 0 (sz div SPI_NOR_SECTOR_SIZE k) offset (snd kw) \<noteq> None"
    by (rule erase_sector_loop_returns [OF assms refl])
  have 3: "flash_flexspi_nor_wait_bus_busy c d x \<bind> (\<lambda>(uu, w1c). Some (memc_flexspi_reset c w1c))
      \<noteq> None" for x
    using assms [unfolded responsive_def, rule_format, of x]
    by (cases "flash_flexspi_nor_wait_bus_busy c d x") auto
  have "body \<noteq> None"
  proof (cases "offset = 0 \<and> sz = flashSize (config d) * KB 1")
    case True
    show ?thesis unfolding body_def Let_def if_P [OF True] by (rule 3)
  next
    case nc: False
    show ?thesis
    proof (cases "0 = offset mod SPI_NOR_BLOCK_SIZE k \<and> 0 = sz mod SPI_NOR_BLOCK_SIZE k")
      case True
      show ?thesis unfolding body_def if_not_P [OF nc] if_P [OF True] by (rule 1)
    next
      case False
      show ?thesis unfolding body_def if_not_P [OF nc] if_not_P [OF False] by (rule 2)
    qed
  qed
  then obtain w2 where "body = Some w2" by auto
  then show ?thesis
    unfolding flash_flexspi_nor_erase_def Let_def case_prod_beta kw_def [symmetric]
      body_def [unfolded Let_def case_prod_beta, symmetric]
    by simp
qed

subsection \<open>The poll loop and the number of busy answers\<close>

lemma busy_reads_wait:
  assumes n: "busy_reads c d n st w = Some (st1, w1)"
    and rs: "flash_flexspi_nor_read_status c d st1 w1 = (r, st', w')"
    and nb: "\<not> (r = 0 \<and> st' AND 1 \<noteq> 0)"
  shows "wait_bus_busy_loop c d st w = Some (r, w')"
  using n
proof (induction n arbitrary: st w)
  case 0
  with rs nb show ?case
    by (subst wait_bus_busy_loop.simps) auto
next
  case (Suc n)
  then show ?case
    by (subst wait_bus_busy_loop.simps) (auto split: prod.splits if_splits)
qed

lemma wait_busy_reads:
  assumes "wait_bus_busy_loop c d st w = Some y"
  shows "\<exists>n st1 w1 st'. busy_reads c d n st w = Some (st1, w1)
        \<and> flash_flexspi_nor_read_status c d st1 w1 = (fst y, st', snd y)
        \<and> \<not> (fst y = 0 \<and> st' AND 1 \<noteq> 0)"
  using assms
proof (rule wait_bus_busy_loop.raw_induct [rotated, where P = "\<lambda>c d st w y.
     \<exists>n st1 w1 st'. busy_reads c d n st w = Some (st1, w1)
        \<and> flash_flexspi_nor_read_status c d st1 w1 = (fst y, st', snd y)
        \<and> \<not> (fst y = 0 \<and> st' AND 1 \<noteq> 0)"])
  fix loop :: "'a collaborators \<Rightarrow> flash_flexspi_nor_data \<Rightarrow> u32 \<Rightarrow> 'a world \<Rightarrow> (int \<times> 'a world) option"
  fix c d st w y
  assume IH: "\<And>c d st w y. loop c d st w = Some y \<Longrightarrow>
      \<exists>n st1 w1 st'. busy_reads c d n st w = Some (st1, w1)
        \<and> flash_flexspi_nor_read_status c d st1 w1 = (fst y, st', snd y)
        \<and> \<not> (fst y = 0 \<and> st' AND 1 \<noteq> 0)"
    and body: "(case flash_flexspi_nor_read_status c d st w of
        (ret, status', w') \<Rightarrow>
          if ret \<noteq> 0 then Some (ret, w')
          else if status' AND 1 \<noteq> 0 then loop c d status' w'
          else Some (0, w')) = Some y"
  obtain ret st' w1 where rs: "flash_flexspi_nor_read_status c d st w = (ret, st', w1)"
    by (cases "flash_flexspi_nor_read_status c d st w") auto
  show "\<exists>n st1 w1 st'. busy_reads c d n st w = Some (st1, w1)
        \<and> flash_flexspi_nor_read_status c d st1 w1 = (fst y, st', snd y)
        \<and> \<not> (fst y = 0 \<and> st' AND 1 \<noteq> 0)"
  proof (cases "ret = 0 \<and> st' AND 1 \<noteq> 0")
    case True
    with body rs have "loop c d st' w1 = Some y" by simp
    from IH [OF this] obtain n st1 w2 st2 where
      "busy_reads c d n st' w1 = Some (st1, w2)"
      "flash_flexspi_nor_read_status c d st1 w2 = (fst y, st2, snd y)"
      "\<not> (fst y = 0 \<and> st2 AND 1 \<noteq> 0)" by blast
    with rs True show ?thesis
      by (intro exI [of _ "Suc n"] exI [of _ st1] exI [of _ w2] exI [of _ st2]) simp
  next
    case False
    with body rs have "y = (ret, w1)" by (auto split: if_splits)
    with rs False show ?thesis
      by (intro exI [of _ 0] exI [of _ st] exI [of _ w] exI [of _ st']) simp
  qed
qed


subsection \<open>The quad-mode handshake\<close>

lemma settled_settled_reads: "settled ph tr \<Longrightarrow> settled_reads ph tr"
  by (induction ph tr rule: settled.induct) (auto split: if_splits)


lemma polls_no_probe: "list_all is_poll ps \<Longrightarrow> \<not> list_ex failed_probe ps"
proof (induction ps)
  case (Cons e ps)
  then show ?case by (cases e) auto
qed simp

lemma write_status_trace:
  "flash_flexspi_nor_write_status c d st 2 w = (r, w') \<Longrightarrow>
     \<exists>t v. trace w' = trace w @ [Transfer t r v] \<and> seqIndex t = WRITE_STATUS_REG"
  by (auto simp: flash_flexspi_nor_write_status_def split: prod.splits dest!: transfer_trace)

lemma read_status2_trace:
  "flash_flexspi_nor_read_status2 c d st w = (r, v, w') \<Longrightarrow>
     \<exists>t. trace w' = trace w @ [Transfer t r v] \<and> seqIndex t = READ_STATUS_REG2"
  unfolding flash_flexspi_nor_read_status2_def
  by (drule transfer_trace) simp

lemma get_vendor_id_trace:
  "flash_flexspi_nor_get_vendor_id c d w = (r, v, w') \<Longrightarrow>
     \<exists>t x. trace w' = trace w @ [Transfer t r x] \<and> seqIndex t = READ_ID"
  by (auto simp: flash_flexspi_nor_get_vendor_id_def split: prod.splits dest!: transfer_trace)

lemma quad_mode_unfold:
  assumes "flash_flexspi_nor_write_enable c d w = (r1, w1)"
    and "flash_flexspi_nor_write_status c d [0x00, 0x02] 2 w1 = (r2, w2)"
  shows "flash_flexspi_nor_enable_quad_mode c d w =
     (if r2 \<noteq> 0 then Some (- EIO, w2)
      else do {
        (_, w3) \<leftarrow> flash_flexspi_nor_wait_bus_busy c d w2;
        case flash_flexspi_nor_read_status2 c d 0 w3 of (_, quad_enabled, w4) \<Rightarrow>
          if 0x02 \<noteq> quad_enabled then Some (- EIO, w4)
          else do {
            (_, w5) \<leftarrow> flash_flexspi_nor_wait_bus_busy c d w4;
            Some (0, memc_flexspi_reset c w5)
          }
      })"
  unfolding flash_flexspi_nor_enable_quad_mode_def assms prod.case ..

lemma quad_mode_steps:
  assumes run: "flash_flexspi_nor_enable_quad_mode c d w = Some (r, w')"
  obtains (status_write_failed) r1 w1 r2 where
      "flash_flexspi_nor_write_enable c d w = (r1, w1)"
      "flash_flexspi_nor_write_status c d [0x00, 0x02] 2 w1 = (r2, w')" "r2 \<noteq> 0" "r = - EIO"
  | (probe_failed) r1 w1 w2 rr w3 r3 q where
      "flash_flexspi_nor_write_enable c d w = (r1, w1)"
      "flash_flexspi_nor_write_status c d [0x00, 0x02] 2 w1 = (0, w2)"
      "flash_flexspi_nor_wait_bus_busy c d w2 = Some (rr, w3)"
      "flash_flexspi_nor_read_status2 c d 0 w3 = (r3, q, w')" "q \<noteq> 2" "r = - EIO"
  | (enabled) r1 w1 w2 rr w3 r3 w4 rr' w5 where
      "flash_flexspi_nor_write_enable c d w = (r1, w1)"
      "flash_flexspi_nor_write_status c d [0x00, 0x02] 2 w1 = (0, w2)"
      "flash_flexspi_nor_wait_bus_busy c d w2 = Some (rr, w3)"
      "flash_flexspi_nor_read_status2 c d 0 w3 = (r3, 2, w4)"
      "flash_flexspi_nor_wait_bus_busy c d w4 = Some (rr', w5)"
      "w' = memc_flexspi_reset c w5" "r = 0"
proof -
  obtain r1 w1 where we: "flash_flexspi_nor_write_enable c d w = (r1, w1)"
    by (cases "flash_flexspi_nor_write_enable c d w") auto
  obtain r2 w2 where ws: "flash_flexspi_nor_write_status c d [0x00, 0x02] 2 w1 = (r2, w2)"
    by (cases "flash_flexspi_nor_write_status c d [0x00, 0x02] 2 w1") auto
  note eq = run [unfolded quad_mode_unfold [OF we ws]]
  show thesis
  proof (cases "r2 = 0")
    case False
    with eq have "r = - EIO" "w' = w2" by simp_all
    with we ws False show thesis by (intro status_write_failed) simp_all
  next
    case True
    with eq obtain rr w3 where
      wt: "flash_flexspi_nor_wait_bus_busy c d w2 = Some (rr, w3)"
      by (cases "flash_flexspi_nor_wait_bus_busy c d w2") auto
    obtain r3 q w4 where rs: "flash_flexspi_nor_read_status2 c d 0 w3 = (r3, q, w4)"
      by (cases "flash_flexspi_nor_read_status2 c d 0 w3") auto
    show thesis
    proof (cases "q = 2")
      case False
      with eq True wt rs have "r = - EIO" "w' = w4" by auto
      with we ws True wt rs False show thesis by (intro probe_failed) simp_all
    next
      case q: True
      with eq True wt rs obtain rr' w5 where
        wt': "flash_flexspi_nor_wait_bus_busy c d w4 = Some (rr', w5)"
        by (cases "flash_flexspi_nor_wait_bus_busy c d w4") auto
      with eq True wt rs q have "r = 0" "w' = memc_flexspi_reset c w5" by auto
      with we ws True wt rs q wt' show thesis by (intro enabled) simp_all
    qed
  qed
qed

lemma quad_mode_trace:
  assumes run: "flash_flexspi_nor_enable_quad_mode c d w = Some (r, w')"
  shows "\<exists>t1 r1 v1 t2 r2 v2. seqIndex t1 = WRITE_ENABLE \<and> seqIndex t2 = WRITE_STATUS_REG \<and>
     trace w' = trace w @ emitted w w' \<and>
     ((r2 \<noteq> 0 \<and> r = - EIO \<and> emitted w w' = [Transfer t1 r1 v1, Transfer t2 r2 v2])
      \<or> (\<exists>ps t3 r3 q. r2 = 0 \<and> ps \<noteq> [] \<and> list_all is_poll ps \<and> seqIndex t3 = READ_STATUS_REG2 \<and>
           ((q \<noteq> 2 \<and> r = - EIO \<and>
               emitted w w' = Transfer t1 r1 v1 # Transfer t2 r2 v2 # ps @ [Transfer t3 r3 q])
            \<or> (\<exists>ps'. q = 2 \<and> r = 0 \<and> ps' \<noteq> [] \<and> list_all is_poll ps' \<and>
                 emitted w w' = Transfer t1 r1 v1 # Transfer t2 r2 v2 # ps
                                  @ Transfer t3 r3 q # ps' @ [Reset]))))"
  using run
proof (cases rule: quad_mode_steps)
  case (status_write_failed r1' w1 r2)
  from write_enable_trace [of c d w] status_write_failed(1) obtain t1 r1 v1 where
    t1: "trace w1 = trace w @ [Transfer t1 r1 v1]" "seqIndex t1 = WRITE_ENABLE" by auto
  from write_status_trace [OF status_write_failed(2)] obtain t2 v2 where
    t2: "trace w' = trace w1 @ [Transfer t2 r2 v2]" "seqIndex t2 = WRITE_STATUS_REG" by blast
  have "emitted w w' = [Transfer t1 r1 v1, Transfer t2 r2 v2]" using t1 t2 by (simp add: emitted_def)
  with t1 t2 status_write_failed(3,4) show ?thesis by (intro exI [of _ t1] exI [of _ t2] exI) auto
next
  case (probe_failed r1' w1 w2 rr w3 r3 q)
  from write_enable_trace [of c d w] probe_failed(1) obtain t1 r1 v1 where
    t1: "trace w1 = trace w @ [Transfer t1 r1 v1]" "seqIndex t1 = WRITE_ENABLE" by auto
  from write_status_trace [OF probe_failed(2)] obtain t2 v2 where
    t2: "trace w2 = trace w1 @ [Transfer t2 0 v2]" "seqIndex t2 = WRITE_STATUS_REG" by blast
  from wait_trace [OF probe_failed(3)] obtain ps where
    ps: "trace w3 = trace w2 @ ps" "ps \<noteq> []" "list_all is_poll ps" by blast
  from read_status2_trace [OF probe_failed(4)] obtain t3 where
    t3: "trace w' = trace w3 @ [Transfer t3 r3 q]" "seqIndex t3 = READ_STATUS_REG2" by blast
  have e: "emitted w w' = Transfer t1 r1 v1 # Transfer t2 0 v2 # ps @ [Transfer t3 r3 q]"
    using t1 t2 ps t3 by (simp add: emitted_def)
  then have "trace w' = trace w @ emitted w w'" using t1 t2 ps t3 by simp
  with e t1(2) t2(2) t3(2) ps(2,3) probe_failed(5,6) show ?thesis
    by (intro exI [of _ t1] exI [of _ r1] exI [of _ v1] exI [of _ t2] exI [of _ 0] exI [of _ v2])
       auto
next
  case (enabled r1' w1 w2 rr w3 r3 w4 rr' w5)
  from write_enable_trace [of c d w] enabled(1) obtain t1 r1 v1 where
    t1: "trace w1 = trace w @ [Transfer t1 r1 v1]" "seqIndex t1 = WRITE_ENABLE" by auto
  from write_status_trace [OF enabled(2)] obtain t2 v2 where
    t2: "trace w2 = trace w1 @ [Transfer t2 0 v2]" "seqIndex t2 = WRITE_STATUS_REG" by blast
  from wait_trace [OF enabled(3)] obtain ps where
    ps: "trace w3 = trace w2 @ ps" "ps \<noteq> []" "list_all is_poll ps" by blast
  from read_status2_trace [OF enabled(4)] obtain t3 where
    t3: "trace w4 = trace w3 @ [Transfer t3 r3 2]" "seqIndex t3 = READ_STATUS_REG2" by blast
  from wait_trace [OF enabled(5)] obtain ps' where
    ps': "trace w5 = trace w4 @ ps'" "ps' \<noteq> []" "list_all is_poll ps'" by blast
  have e: "emitted w w' = Transfer t1 r1 v1 # Transfer t2 0 v2 # ps @ Transfer t3 r3 2 # ps' @ [Reset]"
    using t1 t2 ps t3 ps' enabled(6) by (simp add: emitted_def)
  then have "trace w' = trace w @ emitted w w'" using t1 t2 ps t3 ps' enabled(6) by simp
  with e t1(2) t2(2) t3(2) ps(2,3) ps'(2,3) enabled(7) show ?thesis
    by (intro exI [of _ t1] exI [of _ r1] exI [of _ v1] exI [of _ t2] exI [of _ 0] exI [of _ v2])
       auto
qed

lemma quad_mode_probe:
  assumes run: "flash_flexspi_nor_enable_quad_mode c d w = Some (r, w')"
    and bad: "list_ex failed_probe (emitted w w')"
  shows "r = - EIO \<and> failed_probe (last (emitted w w'))"
proof -
  from quad_mode_trace [OF run] obtain t1 r1 v1 t2 r2 v2 where
    s: "seqIndex t1 = WRITE_ENABLE" "seqIndex t2 = WRITE_STATUS_REG"
    and c: "(r2 \<noteq> 0 \<and> r = - EIO \<and> emitted w w' = [Transfer t1 r1 v1, Transfer t2 r2 v2])
      \<or> (\<exists>ps t3 r3 q. r2 = 0 \<and> ps \<noteq> [] \<and> list_all is_poll ps \<and> seqIndex t3 = READ_STATUS_REG2 \<and>
           ((q \<noteq> 2 \<and> r = - EIO \<and>
               emitted w w' = Transfer t1 r1 v1 # Transfer t2 r2 v2 # ps @ [Transfer t3 r3 q])
            \<or> (\<exists>ps'. q = 2 \<and> r = 0 \<and> ps' \<noteq> [] \<and> list_all is_poll ps' \<and>
                 emitted w w' = Transfer t1 r1 v1 # Transfer t2 r2 v2 # ps
                                  @ Transfer t3 r3 q # ps' @ [Reset])))"
    by blast
  from c show ?thesis
  proof (elim disjE exE conjE)
    assume "emitted w w' = [Transfer t1 r1 v1, Transfer t2 r2 v2]"
    with bad s show ?thesis by simp
  next
    fix ps t3 r3 q
    assume "q \<noteq> 2" "r = - EIO" "seqIndex t3 = READ_STATUS_REG2"
      "emitted w w' = Transfer t1 r1 v1 # Transfer t2 r2 v2 # ps @ [Transfer t3 r3 q]"
    then show ?thesis by simp
  next
    fix ps t3 r3 q ps'
    assume "q = 2" "list_all is_poll ps" "list_all is_poll ps'"
      "emitted w w' = Transfer t1 r1 v1 # Transfer t2 r2 v2 # ps @ Transfer t3 r3 q # ps' @ [Reset]"
    with bad s polls_no_probe [of ps] polls_no_probe [of ps'] show ?thesis by simp
  qed
qed


lemma quad_mode_returns:
  assumes "responsive c d"
  shows "flash_flexspi_nor_enable_quad_mode c d w \<noteq> None"
proof -
  obtain r1 w1 where we: "flash_flexspi_nor_write_enable c d w = (r1, w1)"
    by (cases "flash_flexspi_nor_write_enable c d w") auto
  obtain r2 w2 where ws: "flash_flexspi_nor_write_status c d [0x00, 0x02] 2 w1 = (r2, w2)"
    by (cases "flash_flexspi_nor_write_status c d [0x00, 0x02] 2 w1") auto
  obtain rr w3 where wt: "flash_flexspi_nor_wait_bus_busy c d w2 = Some (rr, w3)"
    using assms [unfolded responsive_def, rule_format, of w2] by auto
  obtain r3 q w4 where rs: "flash_flexspi_nor_read_status2 c d 0 w3 = (r3, q, w4)"
    by (cases "flash_flexspi_nor_read_status2 c d 0 w3") auto
  obtain rr' w5 where wt': "flash_flexspi_nor_wait_bus_busy c d w4 = Some (rr', w5)"
    using assms [unfolded responsive_def, rule_format, of w4] by auto
  show ?thesis
    unfolding quad_mode_unfold [OF we ws] by (simp add: wt rs wt')
qed

subsection \<open>Initialisation\<close>

lemma init_unfold:
  assumes "memc_flexspi_set_device_config c (config d) (dev_port d)
             (if memc_flexspi_is_running_xip c w then memc_flexspi_wait_bus_idle c w else w)
           = (rc, w2)"
  shows "flash_flexspi_nor_init c d w =
     (if \<not> co_device_is_ready c (ctrl w) then Some (- ENODEV, w)
      else if rc \<noteq> 0 then Some (- EINVAL, w2)
          else do {
            (_, w3) \<leftarrow> flash_flexspi_nor_wait_bus_busy c d w2;
            case flash_flexspi_nor_get_vendor_id c d (memc_flexspi_reset c w3) of
              (ret, vendor_id, w4) \<Rightarrow>
                if ret \<noteq> 0 then Some (- EIO, w4)
                else do {
                  (ret, w5) \<leftarrow> flash_flexspi_nor_enable_quad_mode c d w4;
                  if ret \<noteq> 0 then Some (- EIO, w5)
                  else do {
                    (_, w6) \<leftarrow> flash_flexspi_nor_wait_bus_busy c d w5;
                    Some (0, memc_flexspi_reset c w6)
                  }
                }
          })"
  unfolding flash_flexspi_nor_init_def Let_def assms prod.case ..

lemma set_device_config_trace:
  assumes "memc_flexspi_set_device_config c (config d) (dev_port d)
             (if memc_flexspi_is_running_xip c w then memc_flexspi_wait_bus_idle c w else w)
           = (rc, w2)"
  shows "\<exists>tr. trace w2 = trace w @ tr \<and> \<not> list_ex failed_probe tr"
  using assms
  by (auto simp: memc_flexspi_set_device_config_def memc_flexspi_wait_bus_idle_def log_def
           split: prod.splits if_splits)

lemma init_steps:
  assumes run: "flash_flexspi_nor_init c d w = Some (r, w')"
  obtains (stopped) tr where "trace w' = trace w @ tr" "\<not> list_ex failed_probe tr"
  | (quad_failed) tr w4 rq where "trace w4 = trace w @ tr" "\<not> list_ex failed_probe tr"
      "flash_flexspi_nor_enable_quad_mode c d w4 = Some (rq, w')" "rq \<noteq> 0" "r = - EIO"
  | (ready) tr w4 w5 tr' where "trace w4 = trace w @ tr" "\<not> list_ex failed_probe tr"
      "flash_flexspi_nor_enable_quad_mode c d w4 = Some (0, w5)"
      "trace w' = trace w5 @ tr'" "\<not> list_ex failed_probe tr'" "r = 0"
proof -
  obtain rc w2 where cfg: "memc_flexspi_set_device_config c (config d) (dev_port d)
             (if memc_flexspi_is_running_xip c w then memc_flexspi_wait_bus_idle c w else w)
           = (rc, w2)"
    by (cases "memc_flexspi_set_device_config c (config d) (dev_port d)
             (if memc_flexspi_is_running_xip c w then memc_flexspi_wait_bus_idle c w else w)") auto
  note eq = run [unfolded init_unfold [OF cfg]]
  from set_device_config_trace [OF cfg] obtain a where
    a: "trace w2 = trace w @ a" "\<not> list_ex failed_probe a" by blast
  show thesis
  proof (cases "\<not> co_device_is_ready c (ctrl w)")
    case True
    with eq have "w' = w" by simp
    then show thesis by (intro stopped [of "[]"]) simp_all
  next
    case rdy: False
    show thesis
    proof (cases "rc = 0")
      case False
      with eq rdy have "w' = w2" by simp
      with a show thesis by (intro stopped [of a]) simp_all
    next
      case rc: True
      with eq rdy obtain rr w3 where
        wt: "flash_flexspi_nor_wait_bus_busy c d w2 = Some (rr, w3)"
        by (cases "flash_flexspi_nor_wait_bus_busy c d w2") auto
      from wait_trace [OF wt] obtain ps where
        ps: "trace w3 = trace w2 @ ps" "list_all is_poll ps" by blast
      obtain rv vid w4 where
        vi: "flash_flexspi_nor_get_vendor_id c d (memc_flexspi_reset c w3) = (rv, vid, w4)"
        by (cases "flash_flexspi_nor_get_vendor_id c d (memc_flexspi_reset c w3)") auto
      from get_vendor_id_trace [OF vi] obtain t x where
        t: "trace w4 = trace (memc_flexspi_reset c w3) @ [Transfer t rv x]" "seqIndex t = READ_ID"
        by blast
      define b where "b = a @ ps @ [Reset, Transfer t rv x]"
      have b: "trace w4 = trace w @ b" "\<not> list_ex failed_probe b"
        using a ps t polls_no_probe [OF ps(2)] by (simp_all add: b_def)
      show thesis
      proof (cases "rv = 0")
        case False
        with eq rdy rc wt vi have "w' = w4" by simp
        with b show thesis by (intro stopped [of b]) simp_all
      next
        case rv: True
        with eq rdy rc wt vi obtain rq w5 where
          qm: "flash_flexspi_nor_enable_quad_mode c d w4 = Some (rq, w5)"
          by (cases "flash_flexspi_nor_enable_quad_mode c d w4") auto
        show thesis
        proof (cases "rq = 0")
          case False
          with eq rdy rc wt vi rv qm have "r = - EIO" "w' = w5" by simp_all
          with b qm False show thesis by (intro quad_failed [of w4 b rq]) simp_all
        next
          case rq: True
          with eq rdy rc wt vi rv qm obtain rr' w6 where
            wt': "flash_flexspi_nor_wait_bus_busy c d w5 = Some (rr', w6)"
            by (cases "flash_flexspi_nor_wait_bus_busy c d w5") auto
          with eq rdy rc wt vi rv qm rq have fin: "r = 0" "w' = memc_flexspi_reset c w6"
            by simp_all
          from wait_trace [OF wt'] obtain ps' where
            ps': "trace w6 = trace w5 @ ps'" "list_all is_poll ps'" by blast
          have "trace w' = trace w5 @ (ps' @ [Reset])" "\<not> list_ex failed_probe (ps' @ [Reset])"
            using fin ps' polls_no_probe [OF ps'(2)] by simp_all
          with b qm rq fin show thesis by (intro ready [of w4 b w5 "ps' @ [Reset]"]) simp_all
        qed
      qed
    qed
  qed
qed

lemma init_probe:
  assumes run: "flash_flexspi_nor_init c d w = Some (r, w')"
    and bad: "list_ex failed_probe (emitted w w')"
  shows "r = - EIO \<and> failed_probe (last (emitted w w'))"
  using run
proof (cases rule: init_steps)
  case (stopped tr)
  with bad show ?thesis by (simp add: emitted_def)
next
  case (quad_failed tr w4 rq)
  from quad_mode_trace [OF quad_failed(3)] have
    q: "trace w' = trace w4 @ emitted w4 w'" by blast
  have "trace w' = (trace w @ tr) @ emitted w4 w'"
    using q unfolding quad_failed(1) .
  then have e: "emitted w w' = tr @ emitted w4 w'"
    by (intro emitted_append) simp
  with bad quad_failed(2) have "list_ex failed_probe (emitted w4 w')" by simp
  from quad_mode_probe [OF quad_failed(3) this] have
    "failed_probe (last (emitted w4 w'))" by simp
  moreover have "emitted w4 w' \<noteq> []" using \<open>list_ex failed_probe (emitted w4 w')\<close> by auto
  ultimately show ?thesis using e quad_failed(5) by simp
next
  case (ready tr w4 w5 tr')
  from quad_mode_trace [OF ready(3)] have
    q: "trace w5 = trace w4 @ emitted w4 w5" by blast
  have "trace w5 = (trace w @ tr) @ emitted w4 w5"
    using q unfolding ready(1) .
  then have "trace w' = trace w @ tr @ emitted w4 w5 @ tr'"
    unfolding ready(4) by simp
  then have "emitted w w' = tr @ emitted w4 w5 @ tr'"
    by (rule emitted_append)
  with bad ready(2,5) have "list_ex failed_probe (emitted w4 w5)" by simp
  from quad_mode_probe [OF ready(3) this] show ?thesis by (simp add: EIO_def)
qed

lemma init_returns:
  assumes "responsive c d"
  shows "flash_flexspi_nor_init c d w \<noteq> None"
proof -
  obtain rc w2 where cfg: "memc_flexspi_set_device_config c (config d) (dev_port d)
             (if memc_flexspi_is_running_xip c w then memc_flexspi_wait_bus_idle c w else w)
           = (rc, w2)"
    by (cases "memc_flexspi_set_device_config c (config d) (dev_port d)
             (if memc_flexspi_is_running_xip c w then memc_flexspi_wait_bus_idle c w else w)") auto
  obtain rr w3 where wt: "flash_flexspi_nor_wait_bus_busy c d w2 = Some (rr, w3)"
    using assms [unfolded responsive_def, rule_format, of w2] by auto
  obtain rv vid w4 where
    vi: "flash_flexspi_nor_get_vendor_id c d (memc_flexspi_reset c w3) = (rv, vid, w4)"
    by (cases "flash_flexspi_nor_get_vendor_id c d (memc_flexspi_reset c w3)") auto
  obtain rq w5 where qm: "flash_flexspi_nor_enable_quad_mode c d w4 = Some (rq, w5)"
    using quad_mode_returns [OF assms, of w4] by auto
  obtain rr' w6 where wt': "flash_flexspi_nor_wait_bus_busy c d w5 = Some (rr', w6)"
    using assms [unfolded responsive_def, rule_format, of w5] by auto
  show ?thesis
    unfolding init_unfold [OF cfg] by (simp add: wt vi qm wt')
qed

lemma init_extends:
  assumes run: "flash_flexspi_nor_init c d w = Some (r, w')"
  shows "trace w' = trace w @ emitted w w'"
  using run
proof (cases rule: init_steps)
  case (stopped tr)
  then show ?thesis by (intro extends_emitted)
next
  case (quad_failed tr w4 rq)
  from quad_mode_trace [OF quad_failed(3)] have "trace w' = trace w4 @ emitted w4 w'" by blast
  then have "trace w' = trace w @ tr @ emitted w4 w'" unfolding quad_failed(1) by simp
  then show ?thesis by (rule extends_emitted)
next
  case (ready tr w4 w5 tr')
  from quad_mode_trace [OF ready(3)] have "trace w5 = trace w4 @ emitted w4 w5" by blast
  then have "trace w' = trace w @ tr @ emitted w4 w5 @ tr'" unfolding ready(1,4) by simp
  then show ?thesis by (rule extends_emitted)
qed
section \<open>Properties of the driver\<close>

subsection \<open>Program\<close>

text \<open>
  C1. For every offset and every length, each page-program transfer that the write
  operation issues covers bytes of one page only: its device address \<open>a\<close> and its size \<open>n\<close>
  satisfy \<open>a div page_size = (a + n - 1) div page_size\<close>, with \<open>1 \<le> n\<close>. This holds of
  every returning run, whatever the collaborators answer; the run only appends to the
  trace, and the operation returns whenever the device answers every wait.
\<close>

theorem program_chunks_within_page:
  assumes "SPI_NOR_PAGE_SIZE k \<noteq> 0"
  shows "(flash_flexspi_nor_write c k d offset buffer len w = Some (r, w') \<longrightarrow>
            trace w' = trace w @ emitted w w')
       \<and> (flash_flexspi_nor_write c k d offset buffer len w = Some (r, w') \<longrightarrow>
            Transfer t ret rx \<in> set (emitted w w') \<longrightarrow> seqIndex t = PAGE_PROGRAM_QUAD_INPUT \<longrightarrow>
            within_page k t)
       \<and> (responsive c d \<longrightarrow> flash_flexspi_nor_write c k d offset buffer len w \<noteq> None)"
proof (intro conjI impI)
  assume "flash_flexspi_nor_write c k d offset buffer len w = Some (r, w')"
  from write_bus_cycles [OF assms this] show "trace w' = trace w @ emitted w w'" by blast
next
  assume run: "flash_flexspi_nor_write c k d offset buffer len w = Some (r, w')"
    and ev: "Transfer t ret rx \<in> set (emitted w w')"
    and pp: "seqIndex t = PAGE_PROGRAM_QUAD_INPUT"
  from write_bus_cycles [OF assms run] obtain ts where
    ts: "cycles Ready (bus (emitted w w')) = Some ts"
      "list_all (\<lambda>t. seqIndex t = PAGE_PROGRAM_QUAD_INPUT \<and> within_page k t) ts"
    by blast
  have "t \<in> set ts" using cycles_mutations [OF ts(1) bus_set [OF ev]] pp by simp
  with ts(2) show "within_page k t" by (simp add: list_all_iff)
next
  assume "responsive c d"
  then show "flash_flexspi_nor_write c k d offset buffer len w \<noteq> None"
    by (rule write_returns [OF assms])
qed



theorem program_chunks_within_page_witness:
  "SPI_NOR_PAGE_SIZE (spi_nor True True) \<noteq> 0
   \<and> responsive (sim_flash True 2) w25q128jv
   \<and> flash_flexspi_nor_write (sim_flash True 2) (spi_nor True True) w25q128jv 250 [1, 2, 3, 4, 5, 6, 7, 8] 8 world0 \<noteq> None
   \<and> within_page (spi_nor True True)
       \<lparr>deviceAddress = 250, port = 0, cmdType = kFLEXSPI_Write, SeqNumber = 1,
        seqIndex = PAGE_PROGRAM_QUAD_INPUT, data = Bytes [1, 2, 3, 4, 5, 6], dataSize = 6\<rparr>"
proof -
  let ?c = "sim_flash True 2" and ?k = "spi_nor True True"
  let ?t = "\<lparr>deviceAddress = 250, port = 0, cmdType = kFLEXSPI_Write, SeqNumber = 1,
        seqIndex = PAGE_PROGRAM_QUAD_INPUT, data = Bytes [1, 2, 3, 4, 5, 6], dataSize = 6\<rparr>"
  define res where "res = flash_flexspi_nor_write ?c ?k w25q128jv 250 [1, 2, 3, 4, 5, 6, 7, 8] 8 world0"
  have P: "SPI_NOR_PAGE_SIZE ?k \<noteq> 0" by (simp add: spi_nor_def)
  have resp: "responsive ?c w25q128jv" by (rule sim_flash_responsive)
  note inst = program_chunks_within_page [OF P, of ?c w25q128jv 250 "[1, 2, 3, 4, 5, 6, 7, 8]" 8 world0
      "fst (the res)" "snd (the res)" ?t 0 0]
  have some: "res \<noteq> None" using inst resp unfolding res_def by blast
  have ev: "Transfer ?t 0 0 \<in> set (emitted world0 (snd (the res)))"
    unfolding res_def by code_simp
  have "within_page ?k ?t" using inst some ev unfolding res_def by auto
  with P resp some show ?thesis unfolding res_def by blast
qed

text \<open>
  C6. With a page size of 256, writing 300 bytes at offset 250 is three cycles on the bus
  and nothing else: write enable, page program of the first 6 bytes at 250, a whole wait
  until idle, controller reset; then the same with the next 256 bytes at 256; then with
  the last 38 bytes at 512. A whole wait is what \<open>cycles\<close> asks for between the page program
  and the reset: reads of status register 1 of which each but the last succeeds with bit
  0 set, and the last fails or finds bit 0 clear. The run only appends to the trace, and the operation returns whenever
  the device answers every wait.
\<close>

theorem program_250_300:
  assumes P: "SPI_NOR_PAGE_SIZE k = 256" and buf: "length buffer = 300"
  shows "(flash_flexspi_nor_write c k d 250 buffer 300 w = Some (r, w') \<longrightarrow>
            trace w' = trace w @ emitted w w')
       \<and> (flash_flexspi_nor_write c k d 250 buffer 300 w = Some (r, w') \<longrightarrow>
            map_option (map (\<lambda>t. (op_of t, data t))) (cycles Ready (bus (emitted w w')))
              = Some [((PAGE_PROGRAM_QUAD_INPUT, 250, 6), Bytes (take 6 buffer)),
                      ((PAGE_PROGRAM_QUAD_INPUT, 256, 256), Bytes (take 256 (drop 6 buffer))),
                      ((PAGE_PROGRAM_QUAD_INPUT, 512, 38), Bytes (take 38 (drop 262 buffer)))])
       \<and> (responsive c d \<longrightarrow> flash_flexspi_nor_write c k d 250 buffer 300 w \<noteq> None)"
proof (intro conjI impI)
  assume "flash_flexspi_nor_write c k d 250 buffer 300 w = Some (r, w')"
  from write_bus_cycles [OF _ this] show "trace w' = trace w @ emitted w w'"
    by (simp add: P)
next
  assume run: "flash_flexspi_nor_write c k d 250 buffer 300 w = Some (r, w')"
  from write_parts [OF run] obtain w1 w5 pre post where
    p: "write_loop c k d 250 buffer 300 w1 = Some w5"
      "trace w1 = trace w @ pre" "trace w' = trace w5 @ post" "bus pre = []" "bus post = []"
    by blast
  have "\<exists>t1 cyc1 w2. trace w2 = trace w1 @ cyc1 \<and> list_all is_bus cyc1
     \<and> (\<forall>tr. cycles Ready (cyc1 @ tr) = map_option (Cons t1) (cycles Ready tr))
     \<and> op_of t1 = (PAGE_PROGRAM_QUAD_INPUT, 250, 6)
     \<and> data t1 = Bytes (take (unat (6 :: u32)) buffer)
     \<and> write_loop c k d (250 + 6) (drop (unat (6 :: u32)) buffer) (300 - 6) w2 = Some w5"
    by (rule write_loop_chunk [OF _ p(1)]) (simp_all add: P buf)
  then obtain t1 cyc1 w2 where
    s1: "trace w2 = trace w1 @ cyc1" "list_all is_bus cyc1"
      "\<forall>tr. cycles Ready (cyc1 @ tr) = map_option (Cons t1) (cycles Ready tr)"
      "op_of t1 = (PAGE_PROGRAM_QUAD_INPUT, 250, 6)" "data t1 = Bytes (take 6 buffer)"
      "write_loop c k d 256 (drop 6 buffer) 294 w2 = Some w5"
    by auto
  have "\<exists>t2 cyc2 w3. trace w3 = trace w2 @ cyc2 \<and> list_all is_bus cyc2
     \<and> (\<forall>tr. cycles Ready (cyc2 @ tr) = map_option (Cons t2) (cycles Ready tr))
     \<and> op_of t2 = (PAGE_PROGRAM_QUAD_INPUT, 256, 256)
     \<and> data t2 = Bytes (take (unat (256 :: u32)) (drop 6 buffer))
     \<and> write_loop c k d (256 + 256) (drop (unat (256 :: u32)) (drop 6 buffer)) (294 - 256) w3
         = Some w5"
    by (rule write_loop_chunk [OF _ s1(6)]) (simp_all add: P buf)
  then obtain t2 cyc2 w3 where
    s2: "trace w3 = trace w2 @ cyc2" "list_all is_bus cyc2"
      "\<forall>tr. cycles Ready (cyc2 @ tr) = map_option (Cons t2) (cycles Ready tr)"
      "op_of t2 = (PAGE_PROGRAM_QUAD_INPUT, 256, 256)"
      "data t2 = Bytes (take 256 (drop 6 buffer))"
      "write_loop c k d 512 (drop 262 buffer) 38 w3 = Some w5"
    by auto
  have "\<exists>t3 cyc3 w4. trace w4 = trace w3 @ cyc3 \<and> list_all is_bus cyc3
     \<and> (\<forall>tr. cycles Ready (cyc3 @ tr) = map_option (Cons t3) (cycles Ready tr))
     \<and> op_of t3 = (PAGE_PROGRAM_QUAD_INPUT, 512, 38)
     \<and> data t3 = Bytes (take (unat (38 :: u32)) (drop 262 buffer))
     \<and> write_loop c k d (512 + 38) (drop (unat (38 :: u32)) (drop 262 buffer)) (38 - 38) w4
         = Some w5"
    by (rule write_loop_chunk [OF _ s2(6)]) (simp_all add: P buf)
  then obtain t3 cyc3 w4 where
    s3: "trace w4 = trace w3 @ cyc3" "list_all is_bus cyc3"
      "\<forall>tr. cycles Ready (cyc3 @ tr) = map_option (Cons t3) (cycles Ready tr)"
      "op_of t3 = (PAGE_PROGRAM_QUAD_INPUT, 512, 38)"
      "data t3 = Bytes (take 38 (drop 262 buffer))"
      "write_loop c k d 550 (drop 300 buffer) 0 w4 = Some w5"
    by auto
  from s3(6) have "w5 = w4" by (simp add: write_loop_0)
  with p s1 s2 s3 have "emitted w w' = pre @ (cyc1 @ cyc2 @ cyc3) @ post"
    by (intro emitted_append) simp
  then have "bus (emitted w w') = cyc1 @ cyc2 @ cyc3"
    using p(4,5) s1(2) s2(2) s3(2) by (simp add: bus_all)
  moreover have "cycles Ready cyc3 = Some [t3]"
    using s3(3) [rule_format, of "[]"] by simp
  ultimately have "cycles Ready (bus (emitted w w')) = Some [t1, t2, t3]"
    using s1(3) s2(3) by simp
  then show "map_option (map (\<lambda>t. (op_of t, data t))) (cycles Ready (bus (emitted w w')))
              = Some [((PAGE_PROGRAM_QUAD_INPUT, 250, 6), Bytes (take 6 buffer)),
                      ((PAGE_PROGRAM_QUAD_INPUT, 256, 256), Bytes (take 256 (drop 6 buffer))),
                      ((PAGE_PROGRAM_QUAD_INPUT, 512, 38), Bytes (take 38 (drop 262 buffer)))]"
    using s1(4,5) s2(4,5) s3(4,5) by simp
next
  assume "responsive c d"
  then show "flash_flexspi_nor_write c k d 250 buffer 300 w \<noteq> None"
    by (intro write_returns) (simp_all add: P)
qed

theorem program_250_300_witness:
  "SPI_NOR_PAGE_SIZE (spi_nor True True) = 256
   \<and> length (replicate 300 (0x5A :: u8)) = 300
   \<and> responsive (sim_flash True 2) w25q128jv
   \<and> flash_flexspi_nor_write (sim_flash True 2) (spi_nor True True) w25q128jv 250
        (replicate 300 0x5A) 300 world0 \<noteq> None
   \<and> map_option (map op_of) (cycles Ready (bus (emitted world0 (snd (the
        (flash_flexspi_nor_write (sim_flash True 2) (spi_nor True True) w25q128jv 250
           (replicate 300 0x5A) 300 world0))))))
       = Some [(PAGE_PROGRAM_QUAD_INPUT, 250, 6), (PAGE_PROGRAM_QUAD_INPUT, 256, 256),
               (PAGE_PROGRAM_QUAD_INPUT, 512, 38)]"
proof -
  let ?c = "sim_flash True 2" and ?k = "spi_nor True True"
  define res where
    "res = flash_flexspi_nor_write ?c ?k w25q128jv 250 (replicate 300 0x5A) 300 world0"
  have P: "SPI_NOR_PAGE_SIZE ?k = 256" by (simp add: spi_nor_def)
  have len: "length (replicate 300 (0x5A :: u8)) = 300" by simp
  have resp: "responsive ?c w25q128jv" by (rule sim_flash_responsive)
  note inst = program_250_300 [OF P len, of ?c w25q128jv world0 "fst (the res)" "snd (the res)"]
  have some: "res \<noteq> None" using inst resp unfolding res_def by blast
  then have "res = Some (fst (the res), snd (the res))" by auto
  with inst have "map_option (map (\<lambda>t. (op_of t, data t)))
        (cycles Ready (bus (emitted world0 (snd (the res)))))
      = Some [((PAGE_PROGRAM_QUAD_INPUT, 250, 6), Bytes (take 6 (replicate 300 0x5A))),
              ((PAGE_PROGRAM_QUAD_INPUT, 256, 256), Bytes (take 256 (drop 6 (replicate 300 0x5A)))),
              ((PAGE_PROGRAM_QUAD_INPUT, 512, 38), Bytes (take 38 (drop 262 (replicate 300 0x5A))))]"
    unfolding res_def by blast
  then have "map_option (map op_of) (cycles Ready (bus (emitted world0 (snd (the res)))))
      = Some [(PAGE_PROGRAM_QUAD_INPUT, 250, 6), (PAGE_PROGRAM_QUAD_INPUT, 256, 256),
              (PAGE_PROGRAM_QUAD_INPUT, 512, 38)]"
    by (cases "cycles Ready (bus (emitted world0 (snd (the res))))") auto
  with P len resp some show ?thesis unfolding res_def by blast
qed

text \<open>
  C10. For every offset, a write of length zero returns 0 and sends nothing to the bus
  controller: no transfer of any kind and no reset.
\<close>

theorem program_zero_length:
  "\<exists>w'. flash_flexspi_nor_write c k d offset buffer 0 w = Some (0, w')
     \<and> trace w' = trace w @ emitted w w' \<and> bus (emitted w w') = []"
proof -
  define kw where "kw = (if memc_flexspi_is_running_xip c w then irq_lock c w else (0, w))"
  have "\<exists>w'. flash_flexspi_nor_write c k d offset buffer 0 w = Some (0, w')"
    unfolding flash_flexspi_nor_write_def kw_def [symmetric]
    by (cases kw) (simp add: Let_def write_loop_0)
  then obtain w' where run: "flash_flexspi_nor_write c k d offset buffer 0 w = Some (0, w')" ..
  from write_parts [OF run] obtain w1 w2 pre post where
    p: "write_loop c k d offset buffer 0 w1 = Some w2"
      "trace w1 = trace w @ pre" "trace w' = trace w2 @ post" "bus pre = []" "bus post = []"
    by blast
  from p(1) have "w2 = w1" by (simp add: write_loop_0)
  with p have tr: "trace w' = trace w @ pre @ post" by simp
  then have "emitted w w' = pre @ post" by (rule emitted_append)
  with p(4,5) run extends_emitted [OF tr] show ?thesis by auto
qed


subsection \<open>Erase\<close>

text \<open>
  C2. For every sector-aligned erase request the granularity is chosen with priority chip,
  block, sector: the bus trace is a sequence of cycles (write enable, erase transfer,
  a whole wait until idle, controller reset) whose erase transfers are exactly \<open>erase_ops\<close>: one chip
  erase for offset 0 and the size of the whole device, else \<open>size div block_size\<close> block
  erases at addresses advancing by the block size when offset and size are multiples of
  it, else \<open>size div sector_size\<close> sector erases at addresses advancing by the sector
  size. The return code is 0, and the operation returns whenever the device answers
  every wait. The sizes are greater than 1, so that neither a division by zero nor an
  overflow of the loop counter is in reach.
\<close>

theorem erase_granularity:
  assumes "1 < SPI_NOR_SECTOR_SIZE k" "1 < SPI_NOR_BLOCK_SIZE k"
    and "offset mod SPI_NOR_SECTOR_SIZE k = 0" "sz mod SPI_NOR_SECTOR_SIZE k = 0"
  shows "(flash_flexspi_nor_erase c k d offset sz w = Some (r, w') \<longrightarrow>
            r = 0 \<and> trace w' = trace w @ emitted w w'
            \<and> map_option (map op_of) (cycles Ready (bus (emitted w w')))
                     = Some (erase_ops k d offset sz))
       \<and> (responsive c d \<longrightarrow> flash_flexspi_nor_erase c k d offset sz w \<noteq> None)"
  using erase_bus_cycles [OF assms(3,4)] erase_returns by blast

theorem erase_granularity_witness:
  "1 < SPI_NOR_SECTOR_SIZE (spi_nor True False) \<and> 1 < SPI_NOR_BLOCK_SIZE (spi_nor True False)
   \<and> (0x10000 :: u32) mod SPI_NOR_SECTOR_SIZE (spi_nor True False) = 0
   \<and> (0x20000 :: u32) mod SPI_NOR_SECTOR_SIZE (spi_nor True False) = 0
   \<and> responsive (sim_flash True 2) w25q128jv
   \<and> flash_flexspi_nor_erase (sim_flash True 2) (spi_nor True False) w25q128jv 0x10000 0x20000
        world0 \<noteq> None
   \<and> map_option (map op_of) (cycles Ready (bus (emitted world0 (snd (the
        (flash_flexspi_nor_erase (sim_flash True 2) (spi_nor True False) w25q128jv 0x10000 0x20000
           world0))))))
       = Some [(ERASE_BLOCK, 0x10000, 0), (ERASE_BLOCK, 0x20000, 0)]"
proof -
  let ?c = "sim_flash True 2" and ?k = "spi_nor True False"
  define res where "res = flash_flexspi_nor_erase ?c ?k w25q128jv 0x10000 0x20000 world0"
  have S: "1 < SPI_NOR_SECTOR_SIZE ?k" and B: "1 < SPI_NOR_BLOCK_SIZE ?k"
    and a1: "(0x10000 :: u32) mod SPI_NOR_SECTOR_SIZE ?k = 0"
    and a2: "(0x20000 :: u32) mod SPI_NOR_SECTOR_SIZE ?k = 0"
    by (simp_all add: spi_nor_def)
  have resp: "responsive ?c w25q128jv" by (rule sim_flash_responsive)
  note inst = erase_granularity [OF S B a1 a2, of ?c w25q128jv world0 "fst (the res)" "snd (the res)"]
  have some: "res \<noteq> None" using inst resp unfolding res_def by blast
  then have "res = Some (fst (the res), snd (the res))" by auto
  with inst have "map_option (map op_of) (cycles Ready (bus (emitted world0 (snd (the res)))))
      = Some (erase_ops ?k w25q128jv 0x10000 0x20000)"
    unfolding res_def by blast
  moreover have "erase_ops ?k w25q128jv 0x10000 0x20000
      = [(ERASE_BLOCK, 0x10000, 0), (ERASE_BLOCK, 0x20000, 0)]"
    by code_simp
  ultimately show ?thesis using S B a1 a2 resp some unfolding res_def by simp
qed

text \<open>
  C3. An erase request whose offset or size is not a multiple of the sector size returns
  \<open>- EINVAL\<close> in the state it was called in: nothing is added to the trace and the
  controller state is as before.
\<close>

theorem erase_rejects_misaligned:
  assumes "SPI_NOR_SECTOR_SIZE k \<noteq> 0"
    and "offset mod SPI_NOR_SECTOR_SIZE k \<noteq> 0 \<or> sz mod SPI_NOR_SECTOR_SIZE k \<noteq> 0"
  shows "flash_flexspi_nor_erase c k d offset sz w = Some (- EINVAL, w)"
  using assms(2) by (rule erase_misaligned)

theorem erase_rejects_misaligned_witness:
  "SPI_NOR_SECTOR_SIZE (spi_nor True False) \<noteq> 0
   \<and> (0x1800 :: u32) mod SPI_NOR_SECTOR_SIZE (spi_nor True False) \<noteq> 0
   \<and> flash_flexspi_nor_erase (sim_flash True 2) (spi_nor True False) w25q128jv 0x1000 0x1800 world0
       = Some (- EINVAL, world0)"
proof -
  have S: "SPI_NOR_SECTOR_SIZE (spi_nor True False) \<noteq> 0"
    and m: "(0x1800 :: u32) mod SPI_NOR_SECTOR_SIZE (spi_nor True False) \<noteq> 0"
    by (simp_all add: spi_nor_def)
  from erase_rejects_misaligned [where offset = "0x1000" and c = "sim_flash True 2"
      and d = w25q128jv and w = world0, OF S disjI2 [OF m]] S m
  show ?thesis by blast
qed

subsection \<open>Transfer errors\<close>

text \<open>
  C5, as the claim states it, does not hold: on a controller whose every transfer fails
  with \<open>- EIO\<close>, writing one byte returns 0.
\<close>

theorem program_drops_transfer_errors:
  "flash_flexspi_nor_write dead_bus (spi_nor False False) w25q128jv 0 [0xAB] 1 world0
     = Some (0, world0\<lparr>trace :=
         [Transfer \<lparr>deviceAddress = 0, port = 0, cmdType = kFLEXSPI_Command, SeqNumber = 1,
                    seqIndex = WRITE_ENABLE, data = NULL, dataSize = 0\<rparr> (- EIO) 0,
          Transfer \<lparr>deviceAddress = 0, port = 0, cmdType = kFLEXSPI_Write, SeqNumber = 1,
                    seqIndex = PAGE_PROGRAM_QUAD_INPUT, data = Bytes [0xAB], dataSize = 1\<rparr>
            (- EIO) 0,
          Transfer \<lparr>deviceAddress = 0, port = 0, cmdType = kFLEXSPI_Read, SeqNumber = 1,
                    seqIndex = READ_STATUS_REG1, data = Words [0], dataSize = 1\<rparr> (- EIO) 0,
          Reset]\<rparr>)"
  by code_simp

text \<open>
  C5, amended. Whatever the dispatched transfers return, a write that returns returns 0,
  and an erase that returns returns \<open>- EINVAL\<close> for a request that is not sector-aligned
  and 0 for every other: the return codes of the transfers do not reach the caller.
\<close>

theorem program_erase_return_codes:
  "(flash_flexspi_nor_write c k d offset buffer len w = Some (r, w') \<longrightarrow> r = 0)
   \<and> (flash_flexspi_nor_erase c k d offset sz w = Some (r, w') \<longrightarrow>
        r = (if offset mod SPI_NOR_SECTOR_SIZE k \<noteq> 0 \<or> sz mod SPI_NOR_SECTOR_SIZE k \<noteq> 0
             then - EINVAL else 0))"
proof (intro conjI impI)
  assume "flash_flexspi_nor_write c k d offset buffer len w = Some (r, w')"
  from write_parts [OF this] show "r = 0" by blast
next
  assume run: "flash_flexspi_nor_erase c k d offset sz w = Some (r, w')"
  show "r = (if offset mod SPI_NOR_SECTOR_SIZE k \<noteq> 0 \<or> sz mod SPI_NOR_SECTOR_SIZE k \<noteq> 0
             then - EINVAL else 0)"
  proof (cases "offset mod SPI_NOR_SECTOR_SIZE k \<noteq> 0 \<or> sz mod SPI_NOR_SECTOR_SIZE k \<noteq> 0")
    case True
    with run erase_misaligned [OF True, of c d w] show ?thesis by simp
  next
    case False
    then have "offset mod SPI_NOR_SECTOR_SIZE k = 0" "sz mod SPI_NOR_SECTOR_SIZE k = 0" by simp_all
    from erase_parts [OF this run] False show ?thesis by auto
  qed
qed

theorem program_erase_return_codes_witness:
  "flash_flexspi_nor_write dead_bus (spi_nor False False) w25q128jv 0 [0xAB] 1 world0 \<noteq> None
   \<and> fst (the (flash_flexspi_nor_write dead_bus (spi_nor False False) w25q128jv 0 [0xAB] 1 world0)) = 0
   \<and> flash_flexspi_nor_erase dead_bus (spi_nor False False) w25q128jv 0 0x1000 world0 \<noteq> None
   \<and> fst (the (flash_flexspi_nor_erase dead_bus (spi_nor False False) w25q128jv 0 0x1000 world0)) = 0"
proof -
  let ?k = "spi_nor False False"
  define wr where "wr = flash_flexspi_nor_write dead_bus ?k w25q128jv 0 [0xAB] 1 world0"
  define er where "er = flash_flexspi_nor_erase dead_bus ?k w25q128jv 0 0x1000 world0"
  have w: "wr \<noteq> None" unfolding wr_def by code_simp
  have e: "er \<noteq> None" unfolding er_def by code_simp
  have al: "\<not> ((0 :: u32) mod SPI_NOR_SECTOR_SIZE ?k \<noteq> 0 \<or> (0x1000 :: u32) mod SPI_NOR_SECTOR_SIZE ?k \<noteq> 0)"
    by (simp add: spi_nor_def)
  from w have w': "wr = Some (fst (the wr), snd (the wr))" by auto
  from e have e': "er = Some (fst (the er), snd (the er))" by auto
  have "fst (the wr) = 0"
    using program_erase_return_codes [of dead_bus ?k w25q128jv 0 "[0xAB]" 1 world0
        "fst (the wr)" "snd (the wr)"] w'
    unfolding wr_def by blast
  moreover have "fst (the er) = 0"
    using program_erase_return_codes [of dead_bus ?k w25q128jv 0 "[]" 0 world0
        "fst (the er)" "snd (the er)" "0x1000"] e' al
    unfolding er_def by auto
  ultimately show ?thesis using w e unfolding wr_def er_def by blast
qed

subsection \<open>Read\<close>

text \<open>
  C9. For every offset and length, read returns 0 and the \<open>len\<close> bytes that the processor
  sees from the mapped address of \<open>offset\<close> on, in the very state it was called in: no
  call is added to the trace (no transfer, no status poll, no reset) and the controller
  state and the staging buffer are as before.
\<close>

theorem read_is_memory_copy:
  "flash_flexspi_nor_read c d offset len w =
     (0, map (\<lambda>j. co_mem c (ctrl w) (co_get_ahb_address c (ctrl w) (dev_port d) offset + of_nat j))
           [0 ..< unat len], w)"
  by (simp add: flash_flexspi_nor_read_def memc_flexspi_get_ahb_address_def Let_def)

subsection \<open>Waiting until idle\<close>

text \<open>
  C7. The wait returns \<open>(r, w')\<close> exactly when, after some number \<open>n\<close> of reads of status
  register 1 that succeed with bit 0 set, the next read ends in \<open>w'\<close> and either fails with
  the code \<open>r\<close>, or succeeds (\<open>r = 0\<close>) with bit 0 clear. There is no bound on \<open>n\<close>, nothing
  happens between two reads, a failed read is the last one, and while the reads succeed
  with bit 0 set the wait goes on. What a returning wait adds to the trace is one or more
  transfers of the command sequence \<open>READ_STATUS_REG1\<close> and nothing else.
\<close>

theorem wait_until_idle:
  "(flash_flexspi_nor_wait_bus_busy c d w = Some (r, w')
      \<longleftrightarrow> (\<exists>n st1 w1 st'. busy_reads c d n 0 w = Some (st1, w1)
            \<and> flash_flexspi_nor_read_status c d st1 w1 = (r, st', w')
            \<and> \<not> (r = 0 \<and> st' AND 1 \<noteq> 0)))
   \<and> (flash_flexspi_nor_wait_bus_busy c d w = Some (r, w') \<longrightarrow>
        trace w' = trace w @ emitted w w'
        \<and> emitted w w' \<noteq> [] \<and> list_all is_poll (emitted w w'))"
proof (intro conjI iffI impI)
  assume "flash_flexspi_nor_wait_bus_busy c d w = Some (r, w')"
  from wait_busy_reads [OF this [unfolded flash_flexspi_nor_wait_bus_busy_def]]
  show "\<exists>n st1 w1 st'. busy_reads c d n 0 w = Some (st1, w1)
            \<and> flash_flexspi_nor_read_status c d st1 w1 = (r, st', w')
            \<and> \<not> (r = 0 \<and> st' AND 1 \<noteq> 0)"
    by simp
next
  assume "\<exists>n st1 w1 st'. busy_reads c d n 0 w = Some (st1, w1)
            \<and> flash_flexspi_nor_read_status c d st1 w1 = (r, st', w')
            \<and> \<not> (r = 0 \<and> st' AND 1 \<noteq> 0)"
  then show "flash_flexspi_nor_wait_bus_busy c d w = Some (r, w')"
    unfolding flash_flexspi_nor_wait_bus_busy_def by (blast intro: busy_reads_wait)
next
  assume "flash_flexspi_nor_wait_bus_busy c d w = Some (r, w')"
  from wait_trace [OF this] obtain ps where
    "trace w' = trace w @ ps" "ps \<noteq> []" "list_all is_poll ps" by blast
  then show "trace w' = trace w @ emitted w w'" "emitted w w' \<noteq> []"
    "list_all is_poll (emitted w w')"
    by (simp_all add: emitted_append)
qed

theorem wait_until_idle_witness:
  "busy_reads (sim_flash False 2) w25q128jv 2 0 (world0\<lparr>ctrl := 2\<rparr>) \<noteq> None
   \<and> flash_flexspi_nor_wait_bus_busy (sim_flash False 2) w25q128jv (world0\<lparr>ctrl := 2\<rparr>)
       = Some (0, snd (snd (flash_flexspi_nor_read_status (sim_flash False 2) w25q128jv
            (fst (the (busy_reads (sim_flash False 2) w25q128jv 2 0 (world0\<lparr>ctrl := 2\<rparr>))))
            (snd (the (busy_reads (sim_flash False 2) w25q128jv 2 0 (world0\<lparr>ctrl := 2\<rparr>)))))))
   \<and> length (emitted (world0\<lparr>ctrl := 2\<rparr>) (snd (the
        (flash_flexspi_nor_wait_bus_busy (sim_flash False 2) w25q128jv (world0\<lparr>ctrl := 2\<rparr>))))) = 3
   \<and> list_all is_poll (emitted (world0\<lparr>ctrl := 2\<rparr>) (snd (the
        (flash_flexspi_nor_wait_bus_busy (sim_flash False 2) w25q128jv (world0\<lparr>ctrl := 2\<rparr>)))))"
proof -
  let ?c = "sim_flash False 2" and ?w = "world0\<lparr>ctrl := 2\<rparr>"
  define br where "br = busy_reads ?c w25q128jv 2 0 ?w"
  define rs where "rs = flash_flexspi_nor_read_status ?c w25q128jv (fst (the br)) (snd (the br))"
  have b: "br \<noteq> None" unfolding br_def by code_simp
  then have b': "busy_reads ?c w25q128jv 2 0 ?w = Some (fst (the br), snd (the br))"
    unfolding br_def by auto
  have r: "fst rs = 0" "fst (snd rs) AND 1 = 0" unfolding rs_def br_def by code_simp+
  then have rs': "flash_flexspi_nor_read_status ?c w25q128jv (fst (the br)) (snd (the br))
      = (0, fst (snd rs), snd (snd rs))"
    unfolding rs_def by (metis prod.collapse)
  note inst = wait_until_idle [of ?c w25q128jv ?w 0 "snd (snd rs)"]
  have run: "flash_flexspi_nor_wait_bus_busy ?c w25q128jv ?w = Some (0, snd (snd rs))"
    using inst b' rs' r(2) by blast
  then have "list_all is_poll (emitted ?w (snd (snd rs)))" using inst by blast
  moreover have "length (emitted ?w (snd (snd rs))) = 3" unfolding rs_def br_def by code_simp
  ultimately show ?thesis using b run unfolding rs_def br_def by simp
qed

subsection \<open>The quad-mode handshake\<close>

text \<open>
  C4. When the read of status register 2 in the quad-mode handshake yields another value
  than \<open>0x02\<close>, the handshake returns the error \<open>- EIO\<close>, and so does the initialisation
  that runs it: its return code is not 0, so the device is not marked ready. The failed
  read is the last call of either function. Both functions return whenever the device
  answers every wait.
\<close>

theorem quad_probe_failure_is_fatal:
  "(flash_flexspi_nor_enable_quad_mode c d w = Some (r, w') \<longrightarrow>
      trace w' = trace w @ emitted w w')
   \<and> (flash_flexspi_nor_enable_quad_mode c d w = Some (r, w') \<longrightarrow>
      list_ex failed_probe (emitted w w') \<longrightarrow>
      r = - EIO \<and> failed_probe (last (emitted w w')))
   \<and> (flash_flexspi_nor_init c d w = Some (r, w') \<longrightarrow>
      trace w' = trace w @ emitted w w')
   \<and> (flash_flexspi_nor_init c d w = Some (r, w') \<longrightarrow>
      list_ex failed_probe (emitted w w') \<longrightarrow>
      r = - EIO \<and> failed_probe (last (emitted w w')))
   \<and> (responsive c d \<longrightarrow>
      flash_flexspi_nor_enable_quad_mode c d w \<noteq> None \<and> flash_flexspi_nor_init c d w \<noteq> None)"
proof (intro conjI impI)
  assume "flash_flexspi_nor_enable_quad_mode c d w = Some (r, w')"
  from quad_mode_trace [OF this] show "trace w' = trace w @ emitted w w'" by blast
next
  assume "flash_flexspi_nor_enable_quad_mode c d w = Some (r, w')"
    and "list_ex failed_probe (emitted w w')"
  then show "r = - EIO" "failed_probe (last (emitted w w'))"
    using quad_mode_probe by blast+
next
  assume "flash_flexspi_nor_init c d w = Some (r, w')"
  then show "trace w' = trace w @ emitted w w'" by (rule init_extends)
next
  assume "flash_flexspi_nor_init c d w = Some (r, w')"
    and "list_ex failed_probe (emitted w w')"
  then show "r = - EIO" "failed_probe (last (emitted w w'))"
    using init_probe by blast+
next
  assume "responsive c d"
  then show "flash_flexspi_nor_enable_quad_mode c d w \<noteq> None"
    "flash_flexspi_nor_init c d w \<noteq> None"
    by (rule quad_mode_returns, rule init_returns)
qed

theorem quad_probe_failure_is_fatal_witness:
  "responsive (sim_flash True 0) w25q128jv
   \<and> flash_flexspi_nor_init (sim_flash True 0) w25q128jv world0 \<noteq> None
   \<and> list_ex failed_probe (emitted world0 (snd (the
        (flash_flexspi_nor_init (sim_flash True 0) w25q128jv world0))))
   \<and> fst (the (flash_flexspi_nor_init (sim_flash True 0) w25q128jv world0)) = - EIO
   \<and> failed_probe (last (emitted world0 (snd (the
        (flash_flexspi_nor_init (sim_flash True 0) w25q128jv world0)))))
   \<and> flash_flexspi_nor_enable_quad_mode (sim_flash True 0) w25q128jv world0 \<noteq> None
   \<and> list_ex failed_probe (emitted world0 (snd (the
        (flash_flexspi_nor_enable_quad_mode (sim_flash True 0) w25q128jv world0))))
   \<and> fst (the (flash_flexspi_nor_enable_quad_mode (sim_flash True 0) w25q128jv world0)) = - EIO"
proof -
  let ?c = "sim_flash True 0"
  define ini where "ini = flash_flexspi_nor_init ?c w25q128jv world0"
  define qm where "qm = flash_flexspi_nor_enable_quad_mode ?c w25q128jv world0"
  have resp: "responsive ?c w25q128jv" by (rule sim_flash_responsive)
  note i = quad_probe_failure_is_fatal [of ?c w25q128jv world0 "fst (the ini)" "snd (the ini)"]
  note q = quad_probe_failure_is_fatal [of ?c w25q128jv world0 "fst (the qm)" "snd (the qm)"]
  have si: "ini \<noteq> None" and sq: "qm \<noteq> None" using i resp unfolding ini_def qm_def by blast+
  then have ei: "ini = Some (fst (the ini), snd (the ini))"
    and eq: "qm = Some (fst (the qm), snd (the qm))" by auto
  have bi: "list_ex failed_probe (emitted world0 (snd (the ini)))" unfolding ini_def by code_simp
  have bq: "list_ex failed_probe (emitted world0 (snd (the qm)))" unfolding qm_def by code_simp
  have "fst (the ini) = - EIO \<and> failed_probe (last (emitted world0 (snd (the ini))))"
    using i ei bi unfolding ini_def by blast
  moreover have "fst (the qm) = - EIO"
    using q eq bq unfolding qm_def by blast
  ultimately show ?thesis using resp si sq bi bq unfolding ini_def qm_def by blast
qed

subsection \<open>After a mutating transfer\<close>





end
